theory Spec2Isabelle
  imports Complex_Main
begin

section \<open>Text, characters and numbers as the Python code sees them\<close>

text \<open>
  The script is a Python \<open>str\<close>; it is modelled as a \<open>string\<close> whose characters are
  the code points below 256. The three character functions below are Python's
  \<open>str.isspace\<close>, \<open>str.lower\<close> and \<open>str.upper\<close> on that range (the simple case mapping
  the \<open>re\<close> module uses; a code point whose other case lies beyond 255 is its own image).
\<close>

definition code_point :: "char \<Rightarrow> nat" where
  "code_point c = of_char c"

definition py_isspace :: "char \<Rightarrow> bool" where
  "py_isspace c =
     (let n = code_point c
      in (9 \<le> n \<and> n \<le> 13) \<or> (28 \<le> n \<and> n \<le> 32) \<or> n = 133 \<or> n = 160)"

definition py_lower :: "char \<Rightarrow> char" where
  "py_lower c =
     (let n = code_point c
      in if (65 \<le> n \<and> n \<le> 90) \<or> (192 \<le> n \<and> n \<le> 222 \<and> n \<noteq> 215)
         then char_of (n + 32) else c)"

definition py_upper :: "char \<Rightarrow> char" where
  "py_upper c =
     (let n = code_point c
      in if (97 \<le> n \<and> n \<le> 122) \<or> (224 \<le> n \<and> n \<le> 254 \<and> n \<noteq> 247)
         then char_of (n - 32) else c)"

definition lower :: "string \<Rightarrow> string" where
  "lower s = map py_lower s"

text \<open>\<open>x in s\<close> and \<open>s.startswith(x)\<close> on strings.\<close>

definition startswith :: "string \<Rightarrow> string \<Rightarrow> bool" where
  "startswith s x = (take (length x) s = x)"

fun contains :: "string \<Rightarrow> string \<Rightarrow> bool" where
  "contains [] x = (x = [])"
| "contains (c # cs) x = (startswith (c # cs) x \<or> contains cs x)"

text \<open>\<open>code.split('\n')\<close> and \<open>'\n'.join(lines)\<close>.\<close>

fun split_lines :: "string \<Rightarrow> string list" where
  "split_lines [] = [[]]"
| "split_lines (c # cs) =
     (if c = CHR 0x0A then [] # split_lines cs
      else (case split_lines cs of l # ls \<Rightarrow> (c # l) # ls | [] \<Rightarrow> [[c]]))"

fun join_lines :: "string list \<Rightarrow> string" where
  "join_lines [] = []"
| "join_lines [l] = l"
| "join_lines (l # m # ls) = l @ CHR 0x0A # join_lines (m # ls)"

text \<open>
  A Python number is an \<open>int\<close> or a \<open>float\<close>. A float is modelled by the rational number
  it stands for: every finite double is one, and the value of a decimal literal is taken
  exactly (the rounding of a literal to the nearest double, infinities and NaN are outside
  the model).
\<close>

datatype pynum = PyInt int | PyFloat rat

fun num_val :: "pynum \<Rightarrow> rat" where
  "num_val (PyInt i) = of_int i"
| "num_val (PyFloat x) = x"

text \<open>\<open>int(x)\<close> truncates towards zero.\<close>

fun py_int :: "pynum \<Rightarrow> int" where
  "py_int (PyInt i) = i"
| "py_int (PyFloat x) = (if 0 \<le> x then \<lfloor>x\<rfloor> else \<lceil>x\<rceil>)"

text \<open>\<open>x * k\<close> for an integer constant \<open>k\<close>.\<close>

fun py_times :: "pynum \<Rightarrow> int \<Rightarrow> pynum" where
  "py_times (PyInt i) k = PyInt (i * k)"
| "py_times (PyFloat x) k = PyFloat (x * of_int k)"

text \<open>\<open>int(s)\<close> and \<open>float(s)\<close> on the digit strings the patterns capture.\<close>

definition digit_val :: "char \<Rightarrow> nat" where
  "digit_val c = code_point c - 48"

definition int_of_digits :: "string \<Rightarrow> nat" where
  "int_of_digits s = foldl (\<lambda>n c. 10 * n + digit_val c) 0 s"

definition float_of_literal :: "string \<Rightarrow> rat" where
  "float_of_literal s =
     (let whole = takeWhile (\<lambda>c. c \<noteq> CHR ''.'') s;
          frac = drop 1 (dropWhile (\<lambda>c. c \<noteq> CHR ''.'') s)
      in of_nat (int_of_digits whole) + of_nat (int_of_digits frac) / 10 ^ length frac)"

text \<open>\<open>str(n)\<close> for an integer.\<close>

fun digits_of :: "nat \<Rightarrow> string" where
  "digits_of n =
     (if n < 10 then [char_of (48 + n)]
      else digits_of (n div 10) @ [char_of (48 + n mod 10)])"

declare digits_of.simps [simp del]

definition str_int :: "int \<Rightarrow> string" where
  "str_int i = (if i < 0 then CHR ''-'' # digits_of (nat (- i)) else digits_of (nat i))"

text \<open>
  \<open>f"{x:.6f}"\<close>: the number rounded to six decimals, ties to even, the sign kept
  even when the rounded value is zero; then \<open>rstrip\<close> of a set of characters.
\<close>

definition round_half_even :: "rat \<Rightarrow> nat" where
  "round_half_even y =
     (let m = nat \<lfloor>y\<rfloor>; r = y - of_int \<lfloor>y\<rfloor>
      in if r < 1 / 2 then m else if 1 / 2 < r then m + 1
         else if even m then m else m + 1)"

definition pad6 :: "string \<Rightarrow> string" where
  "pad6 s = replicate (6 - length s) CHR ''0'' @ s"

definition format_6f :: "rat \<Rightarrow> string" where
  "format_6f x =
     (let m = round_half_even (\<bar>x\<bar> * 1000000)
      in (if x < 0 then ''-'' else '''') @ digits_of (m div 1000000) @ ''.''
           @ pad6 (digits_of (m mod 1000000)))"

definition rstrip :: "char \<Rightarrow> string \<Rightarrow> string" where
  "rstrip c s = rev (dropWhile (\<lambda>d. d = c) (rev s))"

section \<open>The regular expressions of the parameter parser\<close>

text \<open>
  \<open>re.match(pattern, line, re.IGNORECASE)\<close> is a backtracking matcher anchored at the
  start of the line. The patterns of the parser use character classes, literal text,
  greedy repetition of a class, an optional part, alternation and capture groups, so the
  matcher is modelled for exactly these: it returns every way to match a prefix, in the
  order in which backtracking tries them, each with the groups captured so far and the
  text left over. Python reports the first.
\<close>

datatype cclass = Space | Range char char | Ch char

fun in_class :: "cclass \<Rightarrow> char \<Rightarrow> bool" where
  "in_class Space c = py_isspace c"
| "in_class (Range a b) c =
     ((code_point a \<le> code_point c \<and> code_point c \<le> code_point b)
      \<or> (code_point a \<le> code_point (py_lower c) \<and> code_point (py_lower c) \<le> code_point b)
      \<or> (code_point a \<le> code_point (py_upper c) \<and> code_point (py_upper c) \<le> code_point b))"
| "in_class (Ch a) c = (py_lower c = py_lower a)"

definition in_classes :: "cclass list \<Rightarrow> char \<Rightarrow> bool" where
  "in_classes cs c = (\<exists>k \<in> set cs. in_class k c)"

datatype regex =
    Sym "cclass list"
  | Lit string
  | Cat regex regex
  | Alt regex regex
  | Star "cclass list"
  | Plus "cclass list"
  | Opt regex
  | Grp regex

text \<open>Literal text, compared without regard to case.\<close>

fun lit_match :: "string \<Rightarrow> string \<Rightarrow> string option" where
  "lit_match [] s = Some s"
| "lit_match (a # as) [] = None"
| "lit_match (a # as) (c # cs) = (if py_lower c = py_lower a then lit_match as cs else None)"

text \<open>Greedy repetition of one class: the longest run first, then one character less.\<close>

fun star_match :: "cclass list \<Rightarrow> string \<Rightarrow> string list" where
  "star_match k [] = [[]]"
| "star_match k (c # cs) = (if in_classes k c then star_match k cs @ [c # cs] else [c # cs])"

type_synonym mstate = "string list \<times> string"

fun rm :: "regex \<Rightarrow> mstate \<Rightarrow> mstate list" where
  "rm (Sym k) (g, s) = (case s of c # cs \<Rightarrow> if in_classes k c then [(g, cs)] else [] | [] \<Rightarrow> [])"
| "rm (Lit w) (g, s) = (case lit_match w s of Some t \<Rightarrow> [(g, t)] | None \<Rightarrow> [])"
| "rm (Cat a b) (g, s) = concat (map (rm b) (rm a (g, s)))"
| "rm (Alt a b) (g, s) = rm a (g, s) @ rm b (g, s)"
| "rm (Star k) (g, s) = map (Pair g) (star_match k s)"
| "rm (Plus k) (g, s) =
     (case s of c # cs \<Rightarrow> if in_classes k c then map (Pair g) (star_match k cs) else []
      | [] \<Rightarrow> [])"
| "rm (Opt a) (g, s) = rm a (g, s) @ [(g, s)]"
| "rm (Grp a) (g, s) =
     map (\<lambda>(h, t). (h @ [take (length s - length t) s], t)) (rm a (g, s))"

definition re_match :: "regex \<Rightarrow> string \<Rightarrow> string list option" where
  "re_match p line = (case rm p ([], line) of [] \<Rightarrow> None | (g, t) # _ \<Rightarrow> Some g)"

text \<open>Helpers to write the patterns as the source does.\<close>

fun cats :: "regex list \<Rightarrow> regex" where
  "cats [] = Lit []"
| "cats [r] = r"
| "cats (r # q # rs) = Cat r (cats (q # rs))"

fun alts :: "regex list \<Rightarrow> regex" where
  "alts [] = Sym []"
| "alts [r] = r"
| "alts (r # q # rs) = Alt r (alts (q # rs))"

definition words :: "string list \<Rightarrow> regex" where
  "words ws = alts (map Lit ws)"

definition letter_us :: "cclass list" where
  "letter_us = [Range CHR ''a'' CHR ''z'', Ch CHR ''_'']"

definition digit :: "cclass list" where
  "digit = [Range CHR ''0'' CHR ''9'']"

text \<open>\<open>[0-9]+\<close> and \<open>[0-9]*\.?[0-9]+\<close>.\<close>

definition int_literal :: regex where
  "int_literal = Plus digit"

definition num_literal :: regex where
  "num_literal = cats [Star digit, Opt (Sym [Ch CHR ''.'']), Plus digit]"

text \<open>\<open>^(\s*)(NAME)\s*=\s*(NUMBER)\<close>, the shape of every pattern of the parser.\<close>

definition assignment :: "regex \<Rightarrow> regex \<Rightarrow> regex" where
  "assignment nm number =
     cats [Grp (Star [Space]), Grp nm, Star [Space], Sym [Ch CHR ''=''], Star [Space],
           Grp number]"

text \<open>
  The eight patterns, each given by its name part and its number part, in the order of
  the source.
\<close>

definition pattern_parts :: "(regex \<times> regex) list" where
  "pattern_parts =
    [(Cat (Star letter_us)
          (words [''rate'', ''alpha'', ''beta'', ''gamma'', ''epsilon'', ''lambda'', ''eta'',
                  ''momentum'', ''decay'']),
      num_literal),
     (Cat (Lit ''n_'') (Plus letter_us), int_literal),
     (Cat (Lit ''max_'') (Plus letter_us), int_literal),
     (Cat (Lit ''min_'') (Plus letter_us), num_literal),
     (alts [Cat (Lit ''epoch'') (Opt (Lit ''s'')), Cat (Lit ''iteration'') (Opt (Lit ''s'')),
            Lit ''batch_size'', Lit ''hidden_size'', Lit ''num_layers'', Lit ''dropout'',
            Lit ''threshold'', Lit ''tolerance'', Lit ''k'', Lit ''C'', Lit ''degree''],
      num_literal),
     (words [''test_size'', ''train_size'', ''validation_size'', ''split_ratio'', ''ratio''],
      num_literal),
     (words [''random_state'', ''seed''], int_literal),
     (Cat (Star letter_us)
          (words [''_size'', ''_count'', ''_num'', ''_rate'', ''_ratio'', ''_factor'',
                  ''_weight'']),
      num_literal)]"

definition PARAMETER_PATTERNS :: "regex list" where
  "PARAMETER_PATTERNS = map (\<lambda>(nm, number). assignment nm number) pattern_parts"

text \<open>
  The pattern of \<open>update_code_with_parameters\<close>:
  \<open>^(\s*)({re.escape(param_name)})\s*=\s*([0-9]*\.?[0-9]+)\<close>.
\<close>

definition update_pattern :: "string \<Rightarrow> regex" where
  "update_pattern param_name = assignment (Lit param_name) num_literal"

section \<open>The parameter parser\<close>

text \<open>
  The dataclass \<open>Parameter\<close>. Its constructor takes the three range fields as optional
  arguments and \<open>__post_init__\<close> fills in those that are absent; the record holds the
  fields as they are after construction. The field \<open>value\<close> of the source is \<open>pvalue\<close>
  here.
\<close>

record parameter =
  name :: string
  pvalue :: pynum
  line_number :: nat
  original_text :: string
  param_type :: string
  min_value :: pynum
  max_value :: pynum
  step :: pynum

definition default_min :: "pynum \<Rightarrow> string \<Rightarrow> pynum" where
  "default_min v ty =
     (if ty = ''int'' then PyInt (max 0 (py_int v - 100))
      else if \<bar>num_val v\<bar> < 1 then PyFloat 0 else PyFloat 0)"

definition default_max :: "pynum \<Rightarrow> string \<Rightarrow> pynum" where
  "default_max v ty =
     (if ty = ''int'' then PyInt (max (py_int v + 100) (py_int v * 3))
      else if \<bar>num_val v\<bar> < 1 then PyFloat 1
      else if \<bar>num_val v\<bar> < 10 then py_times v 5
      else py_times v 3)"

definition default_step :: "pynum \<Rightarrow> string \<Rightarrow> pynum" where
  "default_step v ty =
     (if ty = ''int'' then PyInt 1
      else if \<bar>num_val v\<bar> < 1 / 100 then PyFloat (1 / 1000)
      else if \<bar>num_val v\<bar> < 1 / 10 then PyFloat (1 / 100)
      else if \<bar>num_val v\<bar> < 1 then PyFloat (5 / 100)
      else PyFloat (1 / 10))"

definition Parameter ::
  "string \<Rightarrow> pynum \<Rightarrow> nat \<Rightarrow> string \<Rightarrow> string \<Rightarrow> pynum option \<Rightarrow> pynum option \<Rightarrow> pynum option
     \<Rightarrow> parameter" where
  "Parameter nm v lnum txt ty mn mx st =
     \<lparr>name = nm, pvalue = v, line_number = lnum, original_text = txt, param_type = ty,
      min_value = (case mn of None \<Rightarrow> default_min v ty | Some m \<Rightarrow> m),
      max_value = (case mx of None \<Rightarrow> default_max v ty | Some m \<Rightarrow> m),
      step = (case st of None \<Rightarrow> default_step v ty | Some m \<Rightarrow> m)\<rparr>"

text \<open>\<open>any(x in name_lower for x in xs)\<close>.\<close>

definition any_in :: "string list \<Rightarrow> string \<Rightarrow> bool" where
  "any_in xs s = (\<exists>x \<in> set xs. contains s x)"

definition apply_parameter_hints :: "parameter \<Rightarrow> parameter" where
  "apply_parameter_hints param =
     (let name_lower = lower (name param); v = pvalue param
      in if any_in [''rate'', ''alpha'', ''eta'', ''epsilon''] name_lower then
           param\<lparr>min_value := PyFloat (1 / 10000), max_value := PyFloat 1,
                 step := (if num_val v < 1 / 100 then PyFloat (1 / 10000) else PyFloat (1 / 1000))\<rparr>
         else if any_in [''dropout'', ''ratio'', ''size''] name_lower \<and> num_val v \<le> 1 then
           param\<lparr>min_value := PyFloat 0, max_value := PyFloat 1, step := PyFloat (5 / 100)\<rparr>
         else if any_in [''epoch'', ''iteration'', ''batch''] name_lower then
           param\<lparr>min_value := PyInt 1, max_value := PyInt (max 1000 (py_int v * 5)),
                 step := (if num_val v < 100 then PyInt 1 else PyInt 10)\<rparr>
         else if any_in [''depth'', ''layer'', ''level''] name_lower then
           param\<lparr>min_value := PyInt 1, max_value := PyInt 50, step := PyInt 1\<rparr>
         else if startswith name_lower ''n_'' \<or> startswith name_lower ''num_'' then
           param\<lparr>min_value := PyInt 1, max_value := PyInt (max 100 (py_int v * 5)),
                 step := PyInt 1\<rparr>
         else if any_in [''random'', ''seed''] name_lower then
           param\<lparr>min_value := PyInt 0, max_value := PyInt 9999, step := PyInt 1\<rparr>
         else if name_lower \<in> set [''c'', ''lambda'', ''lambda_''] then
           param\<lparr>min_value := PyFloat (1 / 1000), max_value := PyFloat 100,
                 step := PyFloat (1 / 10)\<rparr>
         else if any_in [''momentum'', ''decay'', ''beta'', ''gamma''] name_lower then
           param\<lparr>min_value := PyFloat 0, max_value := PyFloat 1, step := PyFloat (1 / 100)\<rparr>
         else param)"

text \<open>
  The body of the pattern loop once a pattern has matched a new name: the type and the
  value from the captured literal, the record, and the hints.
\<close>

definition make_parameter :: "string \<Rightarrow> string \<Rightarrow> nat \<Rightarrow> parameter" where
  "make_parameter nm value_str line_num =
     (let (ty, v) =
            (if CHR ''.'' \<in> set value_str then (''float'', PyFloat (float_of_literal value_str))
             else (''int'', PyInt (int (int_of_digits value_str))))
      in apply_parameter_hints
           (Parameter nm v line_num (nm @ '' = '' @ value_str) ty None None None))"

text \<open>
  The inner loop over the patterns, for one line: \<open>continue\<close> goes on to the next
  pattern, \<open>break\<close> ends the loop with a parameter. The set \<open>seen_names\<close> is threaded
  through.
\<close>

fun scan_patterns ::
  "regex list \<Rightarrow> string \<Rightarrow> nat \<Rightarrow> string set \<Rightarrow> parameter option \<times> string set" where
  "scan_patterns [] line line_num seen_names = (None, seen_names)"
| "scan_patterns (pattern # rest) line line_num seen_names =
     (case re_match pattern line of
        Some [indent, nm, value_str] \<Rightarrow>
          if nm \<in> seen_names then scan_patterns rest line line_num seen_names
          else (Some (make_parameter nm value_str line_num), insert nm seen_names)
      | _ \<Rightarrow> scan_patterns rest line line_num seen_names)"

text \<open>\<open>stripped = line.strip()\<close>; a line is skipped when it is blank or a comment.\<close>

definition strip :: "string \<Rightarrow> string" where
  "strip s = rev (dropWhile py_isspace (rev (dropWhile py_isspace s)))"

definition skipped :: "string \<Rightarrow> bool" where
  "skipped line = (let stripped = strip line in stripped = [] \<or> startswith stripped ''#'')"

fun detect_lines :: "string list \<Rightarrow> nat \<Rightarrow> string set \<Rightarrow> parameter list" where
  "detect_lines [] line_num seen_names = []"
| "detect_lines (line # rest) line_num seen_names =
     (if skipped line then detect_lines rest (line_num + 1) seen_names
      else (case scan_patterns PARAMETER_PATTERNS line line_num seen_names of
              (Some param, seen) \<Rightarrow> param # detect_lines rest (line_num + 1) seen
            | (None, seen) \<Rightarrow> detect_lines rest (line_num + 1) seen))"

definition detect_parameters :: "string \<Rightarrow> parameter list" where
  "detect_parameters code = detect_lines (split_lines code) 1 {}"

definition has_adjustable_parameters :: "string \<Rightarrow> bool" where
  "has_adjustable_parameters code = (length (detect_parameters code) > 0)"

text \<open>
  \<open>update_code_with_parameters\<close>. The new value is formatted by its Python type; the
  inner loop replaces the first line the pattern of the name matches and stops; the
  outer loop takes the items of the dictionary in their order, each on the lines the
  previous ones left.
\<close>

definition format_value :: "pynum \<Rightarrow> string" where
  "format_value new_value =
     (case new_value of
        PyFloat x \<Rightarrow>
          if x = of_int (py_int new_value) then str_int (py_int new_value)
          else rstrip CHR ''.'' (rstrip CHR ''0'' (format_6f x))
      | PyInt i \<Rightarrow> str_int (py_int new_value))"

fun update_lines :: "string \<Rightarrow> pynum \<Rightarrow> string list \<Rightarrow> string list" where
  "update_lines param_name new_value [] = []"
| "update_lines param_name new_value (line # rest) =
     (case re_match (update_pattern param_name) line of
        Some groups \<Rightarrow> (hd groups @ param_name @ '' = '' @ format_value new_value) # rest
      | None \<Rightarrow> line # update_lines param_name new_value rest)"

fun update_all :: "(string \<times> pynum) list \<Rightarrow> string list \<Rightarrow> string list" where
  "update_all [] lines = lines"
| "update_all ((param_name, new_value) # rest) lines =
     update_all rest (update_lines param_name new_value lines)"

definition update_code_with_parameters :: "string \<Rightarrow> (string \<times> pynum) list \<Rightarrow> string" where
  "update_code_with_parameters code parameters =
     join_lines (update_all parameters (split_lines code))"

section \<open>The execution engine\<close>

text \<open>
  \<open>execute_code\<close> hands the script to Python's \<open>compile\<close> and \<open>exec\<close> and then works
  on objects the script has had in its hands: the namespace, the exception it raised,
  the two capture streams (reachable as \<open>sys.stdout\<close> and \<open>sys.stderr\<close>), its own frame
  (reachable through \<open>sys._getframe\<close>). What the interpreter does with a script is not
  the repository's, so it is a parameter of the model, and every operation of
  \<open>execute_code\<close> on such an object has the outcomes Python allows: it gives a result or
  it raises. Python values are opaque (\<open>'v\<close>).

  A class is a built-in class or a class the script defined; the handlers of
  \<open>execute_code\<close> name built-in classes. An exception is described by what the handlers
  do with it: the classes it is an instance of (its own class first), what \<open>str(e)\<close>
  does and what \<open>traceback.format_exc()\<close> does while it is handled; each gives a text
  or raises an exception of its own.
\<close>

datatype py_class = Builtin string | UserDefined string

datatype py_exception =
  PyException (exc_mro: "py_class list") (exc_str: "py_exception + string")
    (exc_traceback: "py_exception + string")

definition isinstance :: "py_exception \<Rightarrow> py_class \<Rightarrow> bool" where
  "isinstance e cls = (cls \<in> set (exc_mro e))"

text \<open>
  The namespace is a dictionary in insertion order. Its keys are strings, or objects
  the script stored through \<open>globals()\<close>. Such an object is described by what the code
  does with it: compared with a string during a dictionary lookup it differs (also
  when its hash does), is equal, or its \<open>__eq__\<close> raises; and the filter of the
  dictionary comprehension, \<open>not k.startswith('__') and k not in builtin_names\<close>, keeps
  it, drops it, or raises (an \<open>int\<close> has no \<open>startswith\<close>).
\<close>

datatype probe = Differs | Equal | EqRaises py_exception

datatype ns_key =
  Str string | Obj (compared_with: "string \<Rightarrow> probe") (kept: "py_exception + bool")

type_synonym 'v namespace = "(ns_key \<times> 'v) list"

text \<open>\<open>s in ns\<close> and \<open>ns[s]\<close> for a string \<open>s\<close>: the value, \<open>None\<close> when absent.\<close>

fun lookup :: "'v namespace \<Rightarrow> string \<Rightarrow> py_exception + 'v option" where
  "lookup [] s = Inr None"
| "lookup ((Str k, v) # rest) s = (if k = s then Inr (Some v) else lookup rest s)"
| "lookup ((Obj cmp kp, v) # rest) s =
     (case cmp s of
        Differs \<Rightarrow> lookup rest s
      | Equal \<Rightarrow> Inr (Some v)
      | EqRaises e \<Rightarrow> Inl e)"

text \<open>
  A run that ends either raised an exception, while compiling or while executing, or
  completed and left the namespace. With it come the outcomes of what \<open>execute_code\<close>
  does afterwards on objects the script could reach: leaving the \<open>with\<close> statement
  (the \<open>__exit__\<close> of the two redirections) may raise, and \<open>getvalue()\<close> on each capture
  stream gives the text written to it or raises (\<open>ValueError\<close> on a closed stream).
\<close>

datatype phase = Compiling | Executing

datatype 'v ending = Raised phase py_exception | Completed "'v namespace"

record 'v run =
  ending :: "'v ending"
  exit_raises :: "py_exception option"
  stdout_value :: "py_exception + string"
  stderr_value :: "py_exception + string"

text \<open>
  The arguments of \<open>execute_code\<close> that are not put in the namespace; a script reads them
  in the caller's frame (\<open>sys._getframe(1).f_locals\<close>).
\<close>

record 'v frame =
  f_data :: 'v
  f_timeout :: int
  f_allowed_modules :: "string list option"

text \<open>
  The interpreter: the copy of the builtins; what each import does (it gives the
  module, raises, or never returns: \<open>None\<close>); and what the run of a script does, from a
  starting namespace and under a frame (\<open>None\<close> for a script that never ends).
\<close>

record 'v py_env =
  builtins :: 'v
  import_module :: "string \<Rightarrow> (py_exception + 'v) option"
  run_script :: "string \<Rightarrow> 'v namespace \<Rightarrow> 'v frame \<Rightarrow> 'v run option"

text \<open>A call returns a value, lets an exception through to its caller, or never returns.\<close>

datatype 'a call = Returns 'a | Propagates py_exception | NeverReturns

text \<open>
  The namespace before the run: the builtins, the data, and each library that imports.
  Each import stands in a \<open>try\<close> with \<open>except ImportError: pass\<close>.
\<close>

definition preloaded :: "(string \<times> string) list" where
  "preloaded =
     [(''pd'', ''pandas''), (''np'', ''numpy''), (''plt'', ''matplotlib.pyplot''),
      (''sns'', ''seaborn''), (''sklearn'', ''sklearn''), (''scipy'', ''scipy''),
      (''plotly'', ''plotly'')]"

fun preload :: "'v py_env \<Rightarrow> (string \<times> string) list \<Rightarrow> 'v namespace \<Rightarrow> 'v namespace call" where
  "preload env [] ns = Returns ns"
| "preload env ((var, library) # rest) ns =
     (case import_module env library of
        None \<Rightarrow> NeverReturns
      | Some (Inr m) \<Rightarrow> preload env rest (ns @ [(Str var, m)])
      | Some (Inl e) \<Rightarrow>
          if isinstance e (Builtin ''ImportError'') then preload env rest ns else Propagates e)"

definition exec_namespace :: "'v py_env \<Rightarrow> 'v \<Rightarrow> 'v namespace call" where
  "exec_namespace env data =
     preload env preloaded [(Str ''__builtins__'', builtins env), (Str ''df'', data)]"

definition builtin_names :: "string list" where
  "builtin_names =
     [''pd'', ''np'', ''plt'', ''sns'', ''sklearn'', ''scipy'', ''plotly'', ''df'',
      ''__builtins__'']"

text \<open>
  The dictionary comprehension that collects the variables. It takes the keys in
  order and raises at the first key on which its filter raises.
\<close>

fun collect_variables :: "'v namespace \<Rightarrow> py_exception + 'v namespace" where
  "collect_variables [] = Inr []"
| "collect_variables ((Str k, v) # rest) =
     (case collect_variables rest of
        Inl e \<Rightarrow> Inl e
      | Inr vars \<Rightarrow>
          Inr (if \<not> startswith k ''__'' \<and> k \<notin> set builtin_names then (Str k, v) # vars
               else vars))"
| "collect_variables ((Obj cmp kp, v) # rest) =
     (case kp of
        Inl e \<Rightarrow> Inl e
      | Inr keep \<Rightarrow>
          (case collect_variables rest of
             Inl e \<Rightarrow> Inl e
           | Inr vars \<Rightarrow> Inr (if keep then (Obj cmp kp, v) # vars else vars)))"

text \<open>
  The \<open>try\<close> block. Its state is the three locals assigned before it; the body of the
  \<open>with\<close> statement assigns \<open>result\<close> and then \<open>variables\<close>, and stops at the first
  operation that raises; leaving the \<open>with\<close> statement may raise in its turn; then
  \<open>success\<close> is set. \<open>raised\<close> is the exception with which the block is left, if any.
\<close>

record 'v try_state =
  result_local :: "'v option"
  variables_local :: "'v namespace"
  raised :: "py_exception option"

definition with_body :: "'v run \<Rightarrow> 'v try_state" where
  "with_body r =
     (case ending r of
        Raised ph e \<Rightarrow> \<lparr>result_local = None, variables_local = [], raised = Some e\<rparr>
      | Completed ns \<Rightarrow>
          (case (case lookup ns ''result'' of
                   Inl e \<Rightarrow> Inl e
                 | Inr (Some v) \<Rightarrow> Inr (Some v)
                 | Inr None \<Rightarrow> lookup ns ''output'') of
             Inl e \<Rightarrow> \<lparr>result_local = None, variables_local = [], raised = Some e\<rparr>
           | Inr res \<Rightarrow>
               (case collect_variables ns of
                  Inl e \<Rightarrow> \<lparr>result_local = res, variables_local = [], raised = Some e\<rparr>
                | Inr vars \<Rightarrow> \<lparr>result_local = res, variables_local = vars, raised = None\<rparr>)))"

definition try_block :: "'v run \<Rightarrow> 'v try_state" where
  "try_block r =
     (case exit_raises r of
        Some x \<Rightarrow> (with_body r)\<lparr>raised := Some x\<rparr>
      | None \<Rightarrow> with_body r)"

text \<open>
  The handlers: \<open>except SyntaxError as e\<close>, then \<open>except Exception as e\<close>. Each builds
  the error text from a label, \<open>str(e)\<close> and \<open>traceback.format_exc()\<close>, in this order; an
  exception raised there, like an exception no handler takes, leaves \<open>execute_code\<close>.
\<close>

definition handler_text :: "string \<Rightarrow> py_exception \<Rightarrow> py_exception + string" where
  "handler_text label e =
     (case exc_str e of
        Inl x \<Rightarrow> Inl x
      | Inr s \<Rightarrow>
          (case exc_traceback e of
             Inl x \<Rightarrow> Inl x
           | Inr tb \<Rightarrow> Inr (label @ s @ ''\<newline>'' @ tb)))"

definition handlers :: "py_exception \<Rightarrow> py_exception + string" where
  "handlers e =
     (if isinstance e (Builtin ''SyntaxError'') then handler_text ''Syntax Error: '' e
      else if isinstance e (Builtin ''Exception'') then handler_text ''Error: '' e
      else Inl e)"

text \<open>The dictionary that is returned; its key \<open>output\<close> is the field \<open>output_text\<close>.\<close>

record 'v execution_result =
  success :: bool
  output_text :: string
  error :: "string option"
  result :: "'v option"
  variables :: "'v namespace"

definition execute_code ::
  "'v py_env \<Rightarrow> string \<Rightarrow> 'v \<Rightarrow> int \<Rightarrow> string list option \<Rightarrow> 'v execution_result call" where
  "execute_code env code data timeout allowed_modules =
     (case exec_namespace env data of
        NeverReturns \<Rightarrow> NeverReturns
      | Propagates e \<Rightarrow> Propagates e
      | Returns ns \<Rightarrow>
          (case run_script env code ns
                  \<lparr>f_data = data, f_timeout = timeout, f_allowed_modules = allowed_modules\<rparr> of
             None \<Rightarrow> NeverReturns
           | Some r \<Rightarrow>
               (let t = try_block r
                in case (case raised t of
                           None \<Rightarrow> Inr None
                         | Some e \<Rightarrow> map_sum id Some (handlers e)) of
                     Inl x \<Rightarrow> Propagates x
                   | Inr error_msg \<Rightarrow>
                       (case stdout_value r of
                          Inl x \<Rightarrow> Propagates x
                        | Inr stdout_output \<Rightarrow>
                            (case stderr_value r of
                               Inl x \<Rightarrow> Propagates x
                             | Inr stderr_output \<Rightarrow>
                                 Returns
                                   \<lparr>success = (raised t = None),
                                    output_text =
                                      (if stderr_output \<noteq> []
                                       then stdout_output @ ''\<newline>[STDERR]\<newline>'' @ stderr_output
                                       else stdout_output),
                                    error = error_msg,
                                    result = result_local t,
                                    variables = variables_local t\<rparr>)))))"

section \<open>Predicates and sample inputs used in the statements\<close>

text \<open>
  A name without white space and without \<open>=\<close>, and not empty: every Python identifier
  is one. \<open>re.escape\<close> makes the pattern of \<open>update_code_with_parameters\<close> match the
  name as literal text, whatever its characters.
\<close>

definition plain_name :: "string \<Rightarrow> bool" where
  "plain_name nm = (nm \<noteq> [] \<and> (\<forall>c \<in> set nm. \<not> py_isspace c \<and> c \<noteq> CHR ''=''))"

text \<open>
  A text that begins with a number as \<open>[0-9]*\.?[0-9]+\<close> takes it: a digit, or a dot
  and a digit.
\<close>

definition is_digit :: "char \<Rightarrow> bool" where
  "is_digit c = (48 \<le> code_point c \<and> code_point c \<le> 57)"

definition starts_number :: "string \<Rightarrow> bool" where
  "starts_number x =
     (case x of
        [] \<Rightarrow> False
      | c # cs \<Rightarrow>
          is_digit c \<or> (c = CHR ''.'' \<and> (case cs of [] \<Rightarrow> False | d # _ \<Rightarrow> is_digit d)))"

text \<open>
  A line assigns a number to \<open>nm\<close>, upper and lower case taken as the same: after its
  leading white space it reads \<open>nm\<close> in any case, optional white space, \<open>=\<close>, optional
  white space, and the beginning of a number. For a plain name these are the lines
  that the pattern of \<open>update_code_with_parameters\<close> matches (lemma
  \<open>re_match_update_iff\<close>).
\<close>

definition assigns_to :: "string \<Rightarrow> string \<Rightarrow> bool" where
  "assigns_to nm line =
     (case lit_match nm (dropWhile py_isspace line) of
        None \<Rightarrow> False
      | Some r1 \<Rightarrow>
          (case dropWhile py_isspace r1 of
             [] \<Rightarrow> False
           | c # r2 \<Rightarrow> c = CHR ''='' \<and> starts_number (dropWhile py_isspace r2)))"

text \<open>
  A line is an occurrence of the parameter \<open>nm\<close> for \<open>detect_parameters\<close>: one of its
  patterns matches the line and captures \<open>nm\<close>, letter for letter, as the name.
\<close>

definition occurs :: "string \<Rightarrow> string \<Rightarrow> bool" where
  "occurs nm line =
     (\<exists>p \<in> set PARAMETER_PATTERNS. \<exists>indent value_str.
        re_match p line = Some [indent, nm, value_str])"

text \<open>The index of the first line that the pattern of the rewrite matches for \<open>nm\<close>.\<close>

fun match_index :: "string \<Rightarrow> string list \<Rightarrow> nat option" where
  "match_index nm [] = None"
| "match_index nm (line # rest) =
     (if re_match (update_pattern nm) line \<noteq> None then Some 0
      else map_option Suc (match_index nm rest))"

text \<open>
  The numbers are modelled without the limits of the interpreter: \<open>int()\<close> and \<open>str()\<close>
  raise on more digits than a configurable limit, which is never below 640, and
  \<open>float()\<close> gives infinity from about 309 digits on (on which \<open>int()\<close> raises). The
  statements about all scripts and all values are made within these limits: a value of
  at most 640 digits, and lines of at most 300 characters, so that every literal of
  the script converts.
\<close>

definition convertible :: "pynum \<Rightarrow> bool" where
  "convertible v = (\<bar>num_val v\<bar> < 10 ^ 640)"

definition short_lines :: "string \<Rightarrow> bool" where
  "short_lines code = (\<forall>l \<in> set (split_lines code). length l \<le> 300)"



text \<open>
  Sample exceptions, as CPython raises them. The lines of a traceback that name files
  differ from one installation to the next; the last line is the exception itself.
\<close>

definition dq :: string where
  "dq = [CHR 0x22]"

definition sq :: string where
  "sq = [CHR 0x27]"

definition traceback_text :: "string \<Rightarrow> string \<Rightarrow> string" where
  "traceback_text frames last_line =
     ''Traceback (most recent call last):\<newline>'' @ frames @ last_line @ ''\<newline>''"

definition exception_classes :: "string \<Rightarrow> py_class list" where
  "exception_classes cls =
     [Builtin cls, Builtin ''Exception'', Builtin ''BaseException'', Builtin ''object'']"

definition ValueError_x :: "string \<Rightarrow> py_exception" where
  "ValueError_x frames =
     PyException (exception_classes ''ValueError'') (Inr ''x'')
       (Inr (traceback_text frames ''ValueError: x''))"

definition SyntaxError_x :: "string \<Rightarrow> py_exception" where
  "SyntaxError_x frames =
     PyException (exception_classes ''SyntaxError'') (Inr ''x'')
       (Inr (traceback_text frames ''SyntaxError: x''))"

definition SystemExit_0 :: "string \<Rightarrow> py_exception" where
  "SystemExit_0 frames =
     PyException [Builtin ''SystemExit'', Builtin ''BaseException'', Builtin ''object'']
       (Inr []) (Inr (traceback_text frames ''SystemExit''))"

definition no_startswith :: string where
  "no_startswith = sq @ ''int'' @ sq @ '' object has no attribute '' @ sq @ ''startswith'' @ sq"

definition AttributeError_int :: "string \<Rightarrow> py_exception" where
  "AttributeError_int frames =
     PyException (exception_classes ''AttributeError'') (Inr no_startswith)
       (Inr (traceback_text frames (''AttributeError: '' @ no_startswith)))"

definition closed_file :: string where
  "closed_file = ''I/O operation on closed file''"

definition ValueError_closed :: "string \<Rightarrow> py_exception" where
  "ValueError_closed frames =
     PyException (exception_classes ''ValueError'') (Inr closed_file)
       (Inr (traceback_text frames (''ValueError: '' @ closed_file)))"

definition user_frame :: string where
  "user_frame = ''  File <user_code>, line 1, in <module>\<newline>''"

text \<open>The key \<open>1\<close> of a dictionary: an \<open>int\<close> equals no string and has no \<open>startswith\<close>.\<close>

definition int_key :: ns_key where
  "int_key = Obj (\<lambda>s. Differs) (Inl (AttributeError_int []))"

text \<open>
  Sample values and scripts, and what CPython does with them: an environment in which
  no library is installed and whose interpreter knows these scripts (any other script
  it treats as one that never ends).
\<close>

datatype pyval = PyNone | PyNum pynum | PyStr string | PyObj string

definition raise_ValueError :: string where
  "raise_ValueError = ''raise ValueError('' @ dq @ ''x'' @ dq @ '')''"

definition raise_SyntaxError :: string where
  "raise_SyntaxError = ''raise SyntaxError('' @ dq @ ''x'' @ dq @ '')''"

definition close_stdout :: string where
  "close_stdout = ''import sys\<newline>sys.stdout.close()''"

definition read_timeout :: string where
  "read_timeout =
     ''import sys\<newline>result = sys._getframe(1).f_locals['' @ sq @ ''timeout'' @ sq @ '']''"

definition store_int_key :: string where
  "store_int_key = ''print(1)\<newline>result = 5\<newline>globals()[1] = 2''"

definition ModuleNotFoundError_lib :: py_exception where
  "ModuleNotFoundError_lib =
     PyException
       [Builtin ''ModuleNotFoundError'', Builtin ''ImportError'', Builtin ''Exception'',
        Builtin ''BaseException'', Builtin ''object'']
       (Inr ''No module named a library'') (Inr [])"

definition quiet :: "pyval ending \<Rightarrow> pyval run" where
  "quiet e = \<lparr>ending = e, exit_raises = None, stdout_value = Inr [], stderr_value = Inr []\<rparr>"

definition sample_runs :: "string \<Rightarrow> pyval namespace \<Rightarrow> pyval frame \<Rightarrow> pyval run option" where
  "sample_runs code ns fr =
     (if code = ''x = 1'' then
        Some (quiet (Completed (ns @ [(Str ''x'', PyNum (PyInt 1))])))
      else if code = raise_ValueError then
        Some (quiet (Raised Executing (ValueError_x user_frame)))
      else if code = raise_SyntaxError then
        Some (quiet (Raised Executing (SyntaxError_x user_frame)))
      else if code = ''raise SystemExit'' then
        Some (quiet (Raised Executing (SystemExit_0 user_frame)))
      else if code = close_stdout then
        Some ((quiet (Completed (ns @ [(Str ''sys'', PyObj ''sys'')])))
               \<lparr>stdout_value := Inl (ValueError_closed [])\<rparr>)
      else if code = read_timeout then
        Some (quiet (Completed (ns @ [(Str ''sys'', PyObj ''sys''),
                                       (Str ''result'', PyNum (PyInt (f_timeout fr)))])))
      else if code = store_int_key then
        Some ((quiet (Completed (ns @ [(Str ''result'', PyNum (PyInt 5)),
                                        (int_key, PyNum (PyInt 2))])))
               \<lparr>stdout_value := Inr ''1\<newline>''\<rparr>)
      else None)"

definition sample_env :: "pyval py_env" where
  "sample_env =
     \<lparr>builtins = PyObj ''builtins'', import_module = (\<lambda>m. Some (Inl ModuleNotFoundError_lib)),
      run_script = sample_runs\<rparr>"

section \<open>Notions used in the proofs\<close>

text \<open>
  The characters of \<open>[a-zA-Z_]\<close>; the set of texts a regular expression matches in
  full, against which the backtracking matcher is proved sound and complete (lemma
  \<open>rm_lang\<close>); and three syntactic properties of a regular expression: it matches
  texts of letters and underscores only, it never matches the empty text, it has no
  capture group.
\<close>

definition word_char :: "char \<Rightarrow> bool" where
  "word_char c =
     ((97 \<le> code_point c \<and> code_point c \<le> 122) \<or> (65 \<le> code_point c \<and> code_point c \<le> 90)
      \<or> code_point c = 95)"

fun lang :: "regex \<Rightarrow> string set" where
  "lang (Sym k) = {[c] | c. in_classes k c}"
| "lang (Lit w) = {u. lower u = lower w}"
| "lang (Cat a b) = {u @ v | u v. u \<in> lang a \<and> v \<in> lang b}"
| "lang (Alt a b) = lang a \<union> lang b"
| "lang (Star k) = {u. \<forall>c \<in> set u. in_classes k c}"
| "lang (Plus k) = {u. u \<noteq> [] \<and> (\<forall>c \<in> set u. in_classes k c)}"
| "lang (Opt a) = insert [] (lang a)"
| "lang (Grp a) = lang a"

fun word_regex :: "regex \<Rightarrow> bool" where
  "word_regex (Sym k) = (set k \<subseteq> set letter_us)"
| "word_regex (Lit w) = (\<forall>c \<in> set w. word_char c)"
| "word_regex (Cat a b) = (word_regex a \<and> word_regex b)"
| "word_regex (Alt a b) = (word_regex a \<and> word_regex b)"
| "word_regex (Star k) = (set k \<subseteq> set letter_us)"
| "word_regex (Plus k) = (set k \<subseteq> set letter_us)"
| "word_regex (Opt a) = word_regex a"
| "word_regex (Grp a) = False"

fun consumes_some :: "regex \<Rightarrow> bool" where
  "consumes_some (Sym k) = True"
| "consumes_some (Lit w) = (w \<noteq> [])"
| "consumes_some (Cat a b) = (consumes_some a \<or> consumes_some b)"
| "consumes_some (Alt a b) = (consumes_some a \<and> consumes_some b)"
| "consumes_some (Star k) = False"
| "consumes_some (Plus k) = True"
| "consumes_some (Opt a) = False"
| "consumes_some (Grp a) = consumes_some a"

fun groupless :: "regex \<Rightarrow> bool" where
  "groupless (Cat a b) = (groupless a \<and> groupless b)"
| "groupless (Alt a b) = (groupless a \<and> groupless b)"
| "groupless (Opt a) = groupless a"
| "groupless (Grp a) = False"
| "groupless r = True"

text \<open>
  The groups of the first way to match; the run of letters and underscores with which
  a line begins after its white space, and what follows it; what an assignment
  pattern does once the name is matched; the first detection pattern that matches a
  line.
\<close>

definition first :: "mstate list \<Rightarrow> string list option" where
  "first ms = (case ms of [] \<Rightarrow> None | (g, t) # _ \<Rightarrow> Some g)"

definition token :: "string \<Rightarrow> string" where
  "token line = takeWhile word_char (dropWhile py_isspace line)"

definition after_token :: "string \<Rightarrow> string" where
  "after_token line = dropWhile word_char (dropWhile py_isspace line)"

definition after_name :: "regex \<Rightarrow> mstate \<Rightarrow> mstate list" where
  "after_name number m =
     (case dropWhile py_isspace (snd m) of
        [] \<Rightarrow> []
      | c # r2 \<Rightarrow> if c = CHR ''='' then rm (Grp number) (fst m, dropWhile py_isspace r2) else [])"

fun first_pattern :: "regex list \<Rightarrow> string \<Rightarrow> string list option" where
  "first_pattern [] line = None"
| "first_pattern (p # ps) line =
     (case re_match p line of Some g \<Rightarrow> Some g | None \<Rightarrow> first_pattern ps line)"

text \<open>
  For the idempotence of the rewrite: two lists of lines have the same shape when they
  are as long, and line by line have the same leading white space and assign to the
  same plain names; the write that an item of the update does on the lines, and a
  list of such writes applied in order.
\<close>

definition same_shape :: "string list \<Rightarrow> string list \<Rightarrow> bool" where
  "same_shape L X =
     (length X = length L
      \<and> (\<forall>j < length L. takeWhile py_isspace (X ! j) = takeWhile py_isspace (L ! j)
            \<and> (\<forall>nm. plain_name nm \<longrightarrow> assigns_to nm (X ! j) = assigns_to nm (L ! j))))"

definition the_write :: "string list \<Rightarrow> string \<times> pynum \<Rightarrow> (nat \<times> string) option" where
  "the_write L e =
     (case match_index (fst e) L of
        None \<Rightarrow> None
      | Some k \<Rightarrow>
          Some (k, takeWhile py_isspace (L ! k) @ fst e @ '' = '' @ format_value (snd e)))"

definition apply_write :: "(nat \<times> string) option \<Rightarrow> string list \<Rightarrow> string list" where
  "apply_write w X = (case w of None \<Rightarrow> X | Some (k, t) \<Rightarrow> X[k := t])"

fun last_write :: "(nat \<times> string) option list \<Rightarrow> nat \<Rightarrow> string option" where
  "last_write [] j = None"
| "last_write (w # ws) j =
     (case last_write ws j of
        Some t \<Rightarrow> Some t
      | None \<Rightarrow> (case w of None \<Rightarrow> None | Some (k, t) \<Rightarrow> if k = j then Some t else None))"

section \<open>Properties of the parameter parser\<close>

lemma hints_name [simp]: "name (apply_parameter_hints p) = name p"
  by (simp add: apply_parameter_hints_def Let_def)

lemma hints_pvalue [simp]: "pvalue (apply_parameter_hints p) = pvalue p"
  by (simp add: apply_parameter_hints_def Let_def)

text \<open>
  C8. For the one-line script \<open>learning_rate = 0.01\<close>, \<open>detect_parameters\<close> yields
  exactly one parameter: it is named \<open>learning_rate\<close>, of float kind, on line 1, with
  \<open>min_value = 0.0001\<close>, \<open>max_value = 1.0\<close> and \<open>step = 0.001\<close>.
\<close>

theorem detect_learning_rate:
  "detect_parameters ''learning_rate = 0.01'' =
     [\<lparr>name = ''learning_rate'', pvalue = PyFloat (1 / 100), line_number = 1,
       original_text = ''learning_rate = 0.01'', param_type = ''float'',
       min_value = PyFloat (1 / 10000), max_value = PyFloat 1, step = PyFloat (1 / 1000)\<rparr>]"
  by code_simp

text \<open>
  C2. The claim is that every parameter \<open>detect_parameters\<close> returns has
  \<open>min_value \<le> value \<le> max_value\<close> and \<open>step > 0\<close>. The defaults of \<open>Parameter\<close> are derived
  from the value, and \<open>apply_parameter_hints\<close> widens the maximum of the epoch-like names
  with the value, but it sets their minimum to 1 whatever the value: for the script
  \<open>epochs = 0\<close> the parameter \<open>epochs\<close> is returned with the value 0 and the minimum 1.
\<close>

theorem range_invariant_broken:
  "detect_parameters ''epochs = 0'' =
     [\<lparr>name = ''epochs'', pvalue = PyInt 0, line_number = 1, original_text = ''epochs = 0'',
       param_type = ''int'', min_value = PyInt 1, max_value = PyInt 1000, step = PyInt 1\<rparr>]
   \<and> num_val (PyInt 0) < num_val (PyInt 1)"
  by code_simp

subsection \<open>Characters, the matcher and the patterns\<close>

lemma code_point_eq: "(code_point c = code_point d) = (c = d)"
  by (simp add: code_point_def)

lemma char_eq_code: "(c = d) = (code_point c = code_point d)"
  by (simp add: code_point_def)

lemma code_point_char_of: "n < 256 \<Longrightarrow> code_point (char_of n) = n"
  by (simp add: code_point_def)

lemma code_point_less: "code_point c < 256"
  by (simp add: code_point_def)

lemma code_lower:
  "code_point (py_lower c) =
     (if (65 \<le> code_point c \<and> code_point c \<le> 90)
         \<or> (192 \<le> code_point c \<and> code_point c \<le> 222 \<and> code_point c \<noteq> 215)
      then code_point c + 32 else code_point c)"
  by (auto simp: py_lower_def Let_def code_point_char_of)

lemma code_upper:
  "code_point (py_upper c) =
     (if (97 \<le> code_point c \<and> code_point c \<le> 122)
         \<or> (224 \<le> code_point c \<and> code_point c \<le> 254 \<and> code_point c \<noteq> 247)
      then code_point c - 32 else code_point c)"
  by (auto simp: py_upper_def Let_def code_point_char_of)

lemma in_digit [simp]: "in_classes digit c = is_digit c"
  by (auto simp: in_classes_def digit_def is_digit_def code_lower code_upper code_point_def [of "CHR ''0''"] code_point_def [of "CHR ''9''"])

lemma in_letter_us [simp]: "in_classes letter_us c = word_char c"
  by (auto simp: in_classes_def letter_us_def word_char_def code_lower code_upper char_eq_code [of "py_lower c"]
      code_point_def [of "CHR ''a''"] code_point_def [of "CHR ''z''"] code_point_def [of "CHR ''_''"] split: if_splits)

lemma in_equals [simp]: "in_classes [Ch CHR ''=''] c = (c = CHR ''='')"
  by (auto simp: in_classes_def char_eq_code [of "py_lower c"] char_eq_code [of c] code_lower
      code_point_def [of "CHR ''=''"] split: if_splits)

lemma in_dot [simp]: "in_classes [Ch CHR ''.''] c = (c = CHR ''.'')"
  by (auto simp: in_classes_def char_eq_code [of "py_lower c"] char_eq_code [of c] code_lower
      code_point_def [of "CHR ''.''"] split: if_splits)

lemma in_space [simp]: "in_classes [Space] c = py_isspace c"
  by (simp add: in_classes_def)

lemma word_char_not_space: "word_char c \<Longrightarrow> \<not> py_isspace c"
  by (auto simp: word_char_def py_isspace_def Let_def)

lemma word_char_not_equals: "word_char c \<Longrightarrow> c \<noteq> CHR ''=''"
  by (auto simp: word_char_def code_point_def)

lemma digit_not_space: "is_digit c \<Longrightarrow> \<not> py_isspace c"
  by (auto simp: is_digit_def py_isspace_def Let_def)

lemma dot_not_space: "\<not> py_isspace CHR ''.''"
  by (simp add: py_isspace_def code_point_def)

lemma equals_not_space: "\<not> py_isspace CHR ''=''"
  by (simp add: py_isspace_def code_point_def)

lemma hash_not_word: "\<not> word_char CHR ''#''"
  by (simp add: word_char_def code_point_def)

lemma lower_word_char: "py_lower c = py_lower a \<Longrightarrow> word_char a \<Longrightarrow> word_char c"
  by (auto simp: char_eq_code [of "py_lower c"] code_lower word_char_def split: if_splits)

lemma lit_match_iff: "lit_match w s = Some t \<longleftrightarrow> (\<exists>u. s = u @ t \<and> lower u = lower w)"
proof (induction w s rule: lit_match.induct)
  case (1 s)
  then show ?case by (simp add: lower_def)
next
  case (2 a as)
  then show ?case by (simp add: lower_def)
next
  case (3 a as c cs)
  show ?case
  proof
    assume "lit_match (a # as) (c # cs) = Some t"
    then have c: "py_lower c = py_lower a" and "lit_match as cs = Some t"
      by (simp_all split: if_splits)
    with 3 obtain u where "cs = u @ t" "lower u = lower as" by auto
    with c have "c # cs = (c # u) @ t \<and> lower (c # u) = lower (a # as)"
      by (simp add: lower_def)
    then show "\<exists>u. c # cs = u @ t \<and> lower u = lower (a # as)" by blast
  next
    assume "\<exists>u. c # cs = u @ t \<and> lower u = lower (a # as)"
    then obtain u where u: "c # cs = u @ t" "lower u = lower (a # as)" by blast
    then obtain u' where u': "u = c # u'" "cs = u' @ t"
      by (cases u) (auto simp: lower_def)
    with u have "py_lower c = py_lower a" "lower u' = lower as" by (simp_all add: lower_def)
    with 3 u' show "lit_match (a # as) (c # cs) = Some t" by auto
  qed
qed

lemma star_match_set:
  "set (star_match k s) = {t. \<exists>u. s = u @ t \<and> (\<forall>c \<in> set u. in_classes k c)}"
proof (induction s)
  case Nil
  then show ?case by auto
next
  case (Cons c s)
  show ?case
  proof (cases "in_classes k c")
    case True
    have "{t. \<exists>u. c # s = u @ t \<and> (\<forall>x \<in> set u. in_classes k x)}
        = insert (c # s) {t. \<exists>u. s = u @ t \<and> (\<forall>x \<in> set u. in_classes k x)}"
      (is "?A = insert _ ?B")
    proof (rule set_eqI)
      fix t
      show "t \<in> ?A \<longleftrightarrow> t \<in> insert (c # s) ?B"
      proof
        assume "t \<in> ?A"
        then obtain u where u: "c # s = u @ t" "\<forall>x \<in> set u. in_classes k x" by blast
        show "t \<in> insert (c # s) ?B"
        proof (cases u)
          case Nil
          with u show ?thesis by simp
        next
          case (Cons a u')
          with u have "s = u' @ t" "\<forall>x \<in> set u'. in_classes k x" by simp_all
          then show ?thesis by blast
        qed
      next
        assume "t \<in> insert (c # s) ?B"
        then show "t \<in> ?A"
        proof
          assume "t = c # s"
          then have "c # s = [] @ t \<and> (\<forall>x \<in> set []. in_classes k x)" by simp
          then show ?thesis by blast
        next
          assume "t \<in> ?B"
          then obtain u where "s = u @ t" "\<forall>x \<in> set u. in_classes k x" by blast
          with True have "c # s = (c # u) @ t \<and> (\<forall>x \<in> set (c # u). in_classes k x)" by simp
          then show ?thesis by blast
        qed
      qed
    qed
    with True Cons show ?thesis by auto
  next
    case False
    have "{t. \<exists>u. c # s = u @ t \<and> (\<forall>x \<in> set u. in_classes k x)} = {c # s}"
    proof (rule set_eqI)
      fix t
      show "t \<in> {t. \<exists>u. c # s = u @ t \<and> (\<forall>x \<in> set u. in_classes k x)} \<longleftrightarrow> t \<in> {c # s}"
      proof
        assume "t \<in> {t. \<exists>u. c # s = u @ t \<and> (\<forall>x \<in> set u. in_classes k x)}"
        then obtain u where u: "c # s = u @ t" "\<forall>x \<in> set u. in_classes k x" by blast
        with False have "u = []" by (cases u) auto
        with u show "t \<in> {c # s}" by simp
      next
        assume "t \<in> {c # s}"
        then have "c # s = [] @ t \<and> (\<forall>x \<in> set []. in_classes k x)" by simp
        then show "t \<in> {t. \<exists>u. c # s = u @ t \<and> (\<forall>x \<in> set u. in_classes k x)}" by blast
      qed
    qed
    with False show ?thesis by simp
  qed
qed

lemma rm_lang: "snd ` set (rm r (g, s)) = {t. \<exists>u \<in> lang r. s = u @ t}"
proof (induction r arbitrary: g s)
  case (Sym k)
  show ?case by (cases s) auto
next
  case (Lit w)
  show ?case
  proof (cases "lit_match w s")
    case None
    then have "\<not> (\<exists>t. lit_match w s = Some t)" by simp
    then have "\<not> (\<exists>t u. s = u @ t \<and> lower u = lower w)" by (simp add: lit_match_iff)
    with None show ?thesis by auto
  next
    case (Some t)
    have "\<And>t'. (\<exists>u. s = u @ t' \<and> lower u = lower w) \<longleftrightarrow> lit_match w s = Some t'"
      by (simp add: lit_match_iff)
    then have "\<And>t'. (\<exists>u. lower u = lower w \<and> s = u @ t') \<longleftrightarrow> t' = t"
      using Some by auto
    with Some show ?thesis by simp
  qed
next
  case (Cat a b)
  have ih2: "snd ` set (rm b m) = {t. \<exists>v \<in> lang b. snd m = v @ t}" for m
    using Cat.IH(2) [of "fst m" "snd m"] by simp
  have "snd ` set (rm (Cat a b) (g, s)) = (\<Union>m \<in> set (rm a (g, s)). snd ` set (rm b m))"
    by auto
  also have "\<dots> = (\<Union>m \<in> set (rm a (g, s)). {t. \<exists>v \<in> lang b. snd m = v @ t})"
    by (simp only: ih2)
  also have "\<dots> = {t. \<exists>t1 \<in> snd ` set (rm a (g, s)). \<exists>v \<in> lang b. t1 = v @ t}"
    by auto
  also have "\<dots> = {t. \<exists>t1 \<in> {t. \<exists>u \<in> lang a. s = u @ t}. \<exists>v \<in> lang b. t1 = v @ t}"
    by (simp only: Cat.IH(1))
  also have "\<dots> = {t. \<exists>u \<in> lang (Cat a b). s = u @ t}"
    by auto blast+
  finally show ?case .
next
  case (Alt a b)
  then show ?case by (auto simp: image_Un)
next
  case (Star k)
  show ?case by (auto simp: image_image star_match_set)
next
  case (Plus k)
  show ?case
  proof (cases s)
    case Nil
    then show ?thesis by simp
  next
    case (Cons c cs)
    show ?thesis
    proof (cases "in_classes k c")
      case True
      have "{t. \<exists>u. cs = u @ t \<and> (\<forall>x \<in> set u. in_classes k x)}
          = {t. \<exists>u. u \<noteq> [] \<and> (\<forall>x \<in> set u. in_classes k x) \<and> c # cs = u @ t}" (is "?A = ?B")
      proof (rule set_eqI)
        fix t
        show "t \<in> ?A \<longleftrightarrow> t \<in> ?B"
        proof
          assume "t \<in> ?A"
          then obtain u where "cs = u @ t" "\<forall>x \<in> set u. in_classes k x" by blast
          with True have "c # u \<noteq> [] \<and> (\<forall>x \<in> set (c # u). in_classes k x) \<and> c # cs = (c # u) @ t"
            by simp
          then show "t \<in> ?B" by blast
        next
          assume "t \<in> ?B"
          then obtain u where u: "u \<noteq> []" "\<forall>x \<in> set u. in_classes k x" "c # cs = u @ t" by blast
          then obtain u' where "u = c # u'" by (cases u) auto
          with u have "cs = u' @ t \<and> (\<forall>x \<in> set u'. in_classes k x)" by simp
          then show "t \<in> ?A" by blast
        qed
      qed
      with True Cons show ?thesis by (auto simp: image_image star_match_set)
    next
      case False
      have "\<And>t u. u \<noteq> [] \<Longrightarrow> \<forall>x \<in> set u. in_classes k x \<Longrightarrow> c # cs \<noteq> u @ t"
        using False by (metis append_Cons list.exhaust list.inject list.set_intros(1))
      with False Cons show ?thesis by auto
    qed
  qed
next
  case (Opt a)
  then show ?case by (auto simp: image_Un)
next
  case (Grp a)
  have "snd ` set (rm (Grp a) (g, s)) = snd ` set (rm a (g, s))"
    unfolding rm.simps set_map image_image
    by (rule image_cong) (auto split: prod.splits)
  with Grp show ?case by simp
qed

lemma re_match_first: "re_match p line = first (rm p ([], line))"
  by (simp add: re_match_def first_def)

lemma in_sub_letter_us: "set k \<subseteq> set letter_us \<Longrightarrow> in_classes k c \<Longrightarrow> word_char c"
  using in_letter_us [of c] by (auto simp: in_classes_def)

lemma lower_eq_nth:
  "lower u = lower w \<Longrightarrow> length u = length w \<and> (\<forall>i < length u. py_lower (u ! i) = py_lower (w ! i))"
  unfolding lower_def by (metis length_map nth_map)

lemma lang_word_chars: "word_regex r \<Longrightarrow> u \<in> lang r \<Longrightarrow> \<forall>c \<in> set u. word_char c"
proof (induction r arbitrary: u)
  case (Lit w)
  from Lit.prems(2) have eq: "lower u = lower w" by simp
  show ?case
  proof
    fix c assume "c \<in> set u"
    then obtain i where i: "i < length u" "u ! i = c" by (auto simp: in_set_conv_nth)
    with lower_eq_nth [OF eq] have "py_lower c = py_lower (w ! i)" "i < length w" by auto
    moreover from this Lit.prems(1) have "word_char (w ! i)" by simp
    ultimately show "word_char c" by (blast intro: lower_word_char)
  qed
qed (auto dest: in_sub_letter_us)

lemma lang_nonempty: "consumes_some r \<Longrightarrow> [] \<notin> lang r"
  by (induction r) (auto simp: lower_def)

lemma groupless_rm: "groupless r \<Longrightarrow> (h, t) \<in> set (rm r (g, s)) \<Longrightarrow> h = g"
proof (induction r arbitrary: g s h t)
  case (Cat a b)
  from Cat.prems(2) obtain g1 s1 where "(g1, s1) \<in> set (rm a (g, s))" "(h, t) \<in> set (rm b (g1, s1))"
    by auto
  with Cat.IH Cat.prems(1) show ?case by (metis groupless.simps(1))
qed (auto split: list.splits option.splits if_splits)

lemma word_regex_groupless: "word_regex r \<Longrightarrow> groupless r"
  by (induction r) auto

lemma rm_suffix: "(h, t) \<in> set (rm r (g, s)) \<Longrightarrow> \<exists>u \<in> lang r. s = u @ t"
proof -
  assume "(h, t) \<in> set (rm r (g, s))"
  then have "t \<in> snd ` set (rm r (g, s))" by force
  then show ?thesis by (simp add: rm_lang)
qed

lemma rm_complete: "u \<in> lang r \<Longrightarrow> \<exists>h. (h, t) \<in> set (rm r (g, u @ t))"
proof -
  assume "u \<in> lang r"
  then have "t \<in> {t'. \<exists>v \<in> lang r. u @ t = v @ t'}" by blast
  then have "t \<in> snd ` set (rm r (g, u @ t))" by (simp only: rm_lang)
  then show ?thesis by force
qed

lemma rm_empty_iff: "rm r (g, s) = [] \<longleftrightarrow> (\<forall>u \<in> lang r. \<forall>t. s \<noteq> u @ t)"
proof
  assume "rm r (g, s) = []"
  then have "{t. \<exists>u \<in> lang r. s = u @ t} = {}" using rm_lang [of r g s] by simp
  then show "\<forall>u \<in> lang r. \<forall>t. s \<noteq> u @ t" by blast
next
  assume a: "\<forall>u \<in> lang r. \<forall>t. s \<noteq> u @ t"
  show "rm r (g, s) = []"
  proof (rule ccontr)
    assume "rm r (g, s) \<noteq> []"
    then obtain h t where "(h, t) \<in> set (rm r (g, s))" by (cases "rm r (g, s)") auto
    from rm_suffix [OF this] a show False by blast
  qed
qed

lemma rm_Grp_groupless:
  assumes "groupless r" and "(h, t) \<in> set (rm (Grp r) (g, s))"
  shows "\<exists>u \<in> lang r. s = u @ t \<and> h = g @ [u]"
proof -
  from assms(2) obtain h' where in': "(h', t) \<in> set (rm r (g, s))"
    and h: "h = h' @ [take (length s - length t) s]" by auto
  from groupless_rm [OF assms(1) in'] have "h' = g" .
  moreover from rm_suffix [OF in'] obtain u where "u \<in> lang r" "s = u @ t" by blast
  ultimately show ?thesis using h by auto
qed

lemma pattern_parts_shape:
  "(nm, number) \<in> set pattern_parts \<Longrightarrow>
     word_regex nm \<and> consumes_some nm \<and> (number = int_literal \<or> number = num_literal)"
  by (auto simp: pattern_parts_def words_def letter_us_def word_char_def code_point_def)

lemma star_then:
  assumes "\<And>t. t \<noteq> [] \<Longrightarrow> in_classes k (hd t) \<Longrightarrow> f t = []"
  shows "concat (map f (star_match k s)) = f (dropWhile (in_classes k) s)"
proof (induction s)
  case Nil
  show ?case by simp
next
  case (Cons c s)
  show ?case
  proof (cases "in_classes k c")
    case True
    then have "f (c # s) = []" using assms [of "c # s"] by simp
    with True Cons show ?thesis by simp
  next
    case False
    then show ?thesis by simp
  qed
qed

lemma rm_Cat_Star:
  assumes "\<And>t. t \<noteq> [] \<Longrightarrow> in_classes k (hd t) \<Longrightarrow> rm r (g, t) = []"
  shows "rm (Cat (Star k) r) (g, s) = rm r (g, dropWhile (in_classes k) s)"
proof -
  have "rm (Cat (Star k) r) (g, s) = concat (map (\<lambda>t. rm r (g, t)) (star_match k s))"
    by (simp add: comp_def)
  also have "\<dots> = rm r (g, dropWhile (in_classes k) s)"
    using assms by (rule star_then)
  finally show ?thesis .
qed

lemma in_space_fun: "in_classes [Space] = py_isspace"
  by (rule ext) simp

lemma int_literal_lang: "u \<in> lang int_literal \<Longrightarrow> u \<noteq> [] \<and> is_digit (hd u)"
  by (cases u) (auto simp: int_literal_def)

lemma num_literal_lang:
  "u \<in> lang num_literal \<Longrightarrow> u \<noteq> [] \<and> (is_digit (hd u) \<or> hd u = CHR ''.'')"
proof -
  assume "u \<in> lang num_literal"
  then obtain a b c where u: "u = a @ b @ c" and a: "\<forall>x \<in> set a. is_digit x"
    and b: "b = [] \<or> b = ''.''" and c: "c \<noteq> []" "\<forall>x \<in> set c. is_digit x"
    by (auto simp: num_literal_def)
  show ?thesis
  proof (cases a)
    case (Cons x xs)
    with u a show ?thesis by simp
  next
    case Nil
    from c obtain y ys where "c = y # ys" "is_digit y" by (cases c) auto
    with Nil u b show ?thesis by auto
  qed
qed

lemma number_no_space:
  assumes "number = int_literal \<or> number = num_literal"
    and "t \<noteq> []" and "py_isspace (hd t)"
  shows "rm (Grp number) (g, t) = []"
proof -
  have "\<forall>u \<in> lang number. u \<noteq> [] \<and> \<not> py_isspace (hd u)"
    using assms(1) int_literal_lang num_literal_lang digit_not_space dot_not_space by metis
  then have "\<forall>u \<in> lang (Grp number). \<forall>t'. t \<noteq> u @ t'"
    using assms(2,3) by (metis hd_append2 lang.simps(8))
  then show ?thesis by (simp only: rm_empty_iff)
qed

lemma rm_tail:
  assumes "number = int_literal \<or> number = num_literal"
  shows "rm (cats [Star [Space], Sym [Ch CHR ''=''], Star [Space], Grp number]) m
           = after_name number m"
proof -
  obtain g r1 where m: "m = (g, r1)" by (cases m)
  let ?R4 = "Cat (Star [Space]) (Grp number)"
  let ?R3 = "Cat (Sym [Ch CHR ''='']) ?R4"
  have r4: "rm ?R4 (h, s) = rm (Grp number) (h, dropWhile py_isspace s)" for h s
    using rm_Cat_Star [of "[Space]" "Grp number" h s] number_no_space [OF assms]
    by (simp add: in_space_fun)
  have r3: "rm ?R3 (h, s)
      = (case s of [] \<Rightarrow> [] | c # r2 \<Rightarrow> if c = CHR ''='' then rm ?R4 (h, r2) else [])" for h s
    by (cases s) simp_all
  have cats_eq: "cats [Star [Space], Sym [Ch CHR ''=''], Star [Space], Grp number]
      = Cat (Star [Space]) ?R3"
    by simp
  have step1: "rm (Cat (Star [Space]) ?R3) (g, r1) = rm ?R3 (g, dropWhile py_isspace r1)"
  proof -
    have "rm ?R3 (g, t) = []" if "t \<noteq> []" "in_classes [Space] (hd t)" for t
      using that equals_not_space by (cases t) auto
    from rm_Cat_Star [of "[Space]" ?R3 g r1, OF this] show ?thesis
      by (simp add: in_space_fun)
  qed
  show ?thesis
    unfolding m after_name_def cats_eq step1
    by (simp only: r3 r4 fst_conv snd_conv)
qed

lemma take_dropWhile_takeWhile:
  "take (length s - length (dropWhile P s)) s = takeWhile P s"
proof -
  have "s = takeWhile P s @ dropWhile P s" by simp
  then have "length s - length (dropWhile P s) = length (takeWhile P s)"
    by (metis add_diff_cancel_right' length_append)
  then show ?thesis by (metis append_eq_conv_conj takeWhile_dropWhile_id)
qed

lemma rm_assignment:
  assumes "\<And>u. u \<in> lang nm \<Longrightarrow> u \<noteq> [] \<and> \<not> py_isspace (hd u)"
    and "number = int_literal \<or> number = num_literal"
  shows "rm (assignment nm number) ([], line)
           = concat (map (after_name number)
               (rm (Grp nm) ([takeWhile py_isspace line], dropWhile py_isspace line)))"
proof -
  let ?R2 = "cats [Star [Space], Sym [Ch CHR ''=''], Star [Space], Grp number]"
  let ?R1 = "Cat (Grp nm) ?R2"
  let ?f = "\<lambda>t. rm ?R1 ([take (length line - length t) line], t)"
  have r1: "rm ?R1 m = concat (map (after_name number) (rm (Grp nm) m))" for m
  proof -
    have "rm ?R2 = after_name number" using rm_tail [OF assms(2)] by (intro ext)
    then show ?thesis by (cases m) simp
  qed
  have none: "?f t = []" if "t \<noteq> []" "in_classes [Space] (hd t)" for t
  proof -
    have "\<forall>u \<in> lang (Grp nm). \<forall>t'. t \<noteq> u @ t'"
      using assms(1) that by (metis hd_append2 in_space lang.simps(8))
    then have "rm (Grp nm) ([take (length line - length t) line], t) = []"
      by (simp only: rm_empty_iff)
    then show ?thesis by (simp only: r1) simp
  qed
  have "rm (assignment nm number) ([], line) = concat (map ?f (star_match [Space] line))"
    by (simp add: assignment_def comp_def)
  also have "\<dots> = ?f (dropWhile (in_classes [Space]) line)"
    using none by (rule star_then)
  also have "\<dots> = rm ?R1 ([takeWhile py_isspace line], dropWhile py_isspace line)"
    by (simp only: in_space_fun take_dropWhile_takeWhile)
  finally show ?thesis by (simp only: r1)
qed

lemma first_Nil [simp]: "first [] = None"
  by (simp add: first_def)

lemma first_append: "xs \<noteq> [] \<Longrightarrow> first (xs @ ys) = first xs"
  by (cases xs) (simp_all add: first_def)

lemma first_concat_same:
  assumes "\<forall>x \<in> set xs. f x = [] \<or> f x = X"
  shows "first (concat (map f xs)) = (if \<exists>x \<in> set xs. f x \<noteq> [] then first X else None)"
  using assms
proof (induction xs)
  case Nil
  then show ?case by simp
next
  case (Cons x xs)
  show ?case
  proof (cases "f x = []")
    case True
    with Cons show ?thesis by simp
  next
    case False
    with Cons.prems have "f x = X" by simp
    with False show ?thesis by (simp add: first_append)
  qed
qed

lemma token_split: "dropWhile py_isspace line = token line @ after_token line"
  by (simp add: token_def after_token_def)

lemma token_word_chars: "\<forall>c \<in> set (token line). word_char c"
  unfolding token_def by (metis set_takeWhileD)

lemma after_token_start: "after_token line = c # cs \<Longrightarrow> \<not> word_char c"
  unfolding after_token_def by (metis hd_dropWhile list.sel(1) list.distinct(1))

lemma word_prefix_of_token:
  assumes "dropWhile py_isspace line = u @ t" and "\<forall>c \<in> set u. word_char c"
  shows "token line = u @ takeWhile word_char t"
  using assms by (simp add: token_def takeWhile_append2)

lemma after_name_word_start:
  "word_char c \<Longrightarrow> after_name number (h, c # cs) = []"
  by (simp add: after_name_def word_char_not_space word_char_not_equals)

lemma re_match_assignment:
  assumes "word_regex nm" and "consumes_some nm"
    and "number = int_literal \<or> number = num_literal"
  shows "re_match (assignment nm number) line
           = (if token line \<in> lang nm
              then first (after_name number
                            ([takeWhile py_isspace line, token line], after_token line))
              else None)"
proof -
  let ?ws = "takeWhile py_isspace line"
  let ?rest = "dropWhile py_isspace line"
  let ?xs = "rm (Grp nm) ([?ws], ?rest)"
  let ?X = "after_name number ([?ws, token line], after_token line)"
  have start: "u \<noteq> [] \<and> \<not> py_isspace (hd u)" if "u \<in> lang nm" for u
  proof -
    from that lang_nonempty [OF assms(2)] have "u \<noteq> []" by auto
    moreover from lang_word_chars [OF assms(1) that] this have "word_char (hd u)" by simp
    ultimately show ?thesis by (simp add: word_char_not_space)
  qed
  have each: "(h, t) \<in> set ?xs \<Longrightarrow>
      (t = after_token line \<and> h = [?ws, token line] \<and> token line \<in> lang nm)
      \<or> after_name number (h, t) = []" for h t
  proof -
    assume "(h, t) \<in> set ?xs"
    from rm_Grp_groupless [OF word_regex_groupless [OF assms(1)] this]
    obtain u where u: "u \<in> lang nm" "?rest = u @ t" "h = [?ws, u]" by auto
    have tok: "token line = u @ takeWhile word_char t"
      using word_prefix_of_token [OF u(2)] lang_word_chars [OF assms(1) u(1)] by simp
    show ?thesis
    proof (cases "takeWhile word_char t")
      case Nil
      with tok have "token line = u" by simp
      moreover from this u(2) token_split [of line] have "t = after_token line" by simp
      ultimately show ?thesis using u by simp
    next
      case (Cons c cs)
      then obtain t' where "t = c # t'" "word_char c"
        by (cases t) (auto split: if_splits)
      then show ?thesis by (simp add: after_name_word_start)
    qed
  qed
  then have same: "\<forall>x \<in> set ?xs. after_name number x = [] \<or> after_name number x = ?X"
    by fastforce
  have "re_match (assignment nm number) line = first (concat (map (after_name number) ?xs))"
    unfolding re_match_first using rm_assignment [OF start assms(3), of nm line] by simp
  also have "\<dots> = (if \<exists>x \<in> set ?xs. after_name number x \<noteq> [] then first ?X else None)"
    using same by (rule first_concat_same)
  also have "\<dots> = (if token line \<in> lang nm then first ?X else None)"
  proof (cases "token line \<in> lang nm")
    case True
    from True have "token line \<in> lang (Grp nm)" by simp
    from rm_complete [OF this, of "after_token line" "[?ws]"]
    obtain h where "(h, after_token line)
        \<in> set (rm (Grp nm) ([?ws], token line @ after_token line))"
      by blast
    then have h: "(h, after_token line) \<in> set ?xs"
      by (simp only: token_split)
    show ?thesis
    proof (cases "?X = []")
      case True
      with same show ?thesis by auto
    next
      case False
      from rm_Grp_groupless [OF word_regex_groupless [OF assms(1)] h]
      obtain u where "?rest = u @ after_token line" "h = [?ws, u]" by auto
      with token_split [of line] have "h = [?ws, token line]" by simp
      then have "after_name number (h, after_token line) = ?X" by simp
      with False h have "\<exists>x \<in> set ?xs. after_name number x \<noteq> []" by force
      with True show ?thesis by simp
    qed
  next
    case False
    with each have "\<forall>x \<in> set ?xs. after_name number x = []" by fastforce
    with False show ?thesis by simp
  qed
  finally show ?thesis .
qed

lemma lower_space: "py_lower c = py_lower a \<Longrightarrow> py_isspace c = py_isspace a"
proof -
  assume "py_lower c = py_lower a"
  then have e: "code_point (py_lower c) = code_point (py_lower a)" by simp
  have a: "py_isspace x \<Longrightarrow> code_point (py_lower x) = code_point x" for x
    by (auto simp: code_lower py_isspace_def Let_def)
  have b: "py_isspace x \<Longrightarrow> code_point (py_lower y) = code_point x \<Longrightarrow> y = x" for x y
    unfolding char_eq_code [of y x] code_lower py_isspace_def Let_def
    by (cases "(65 \<le> code_point y \<and> code_point y \<le> 90) \<or>
        (192 \<le> code_point y \<and> code_point y \<le> 222 \<and> code_point y \<noteq> 215)") (simp_all, arith)
  show ?thesis using e a b by metis
qed

lemma lower_equals: "py_lower c = py_lower a \<Longrightarrow> (c = CHR ''='') = (a = CHR ''='')"
proof -
  assume "py_lower c = py_lower a"
  then have e: "code_point (py_lower c) = code_point (py_lower a)" by simp
  have a: "code_point (py_lower x) = 61 \<longleftrightarrow> code_point x = 61" for x
    by (auto simp: code_lower)
  have b: "x = CHR ''='' \<longleftrightarrow> code_point x = 61" for x
    by (simp add: char_eq_code [of x] code_point_def [of "CHR ''=''"])
  show ?thesis using e a b by metis
qed

declare rm.simps [simp del]

lemma lang_num_literal:
  "lang num_literal
     = {a @ b @ c | a b c. (\<forall>y \<in> set a. is_digit y) \<and> (b = [] \<or> b = ''.'')
                          \<and> c \<noteq> [] \<and> (\<forall>y \<in> set c. is_digit y)}"
proof -
  have 1: "lang (Star digit) = {a. \<forall>y \<in> set a. is_digit y}" by simp
  have 2: "lang (Opt (Sym [Ch CHR ''.''])) = {[], ''.''}" by auto
  have 3: "lang (Plus digit) = {c. c \<noteq> [] \<and> (\<forall>y \<in> set c. is_digit y)}" by simp
  have "lang num_literal
      = {a @ v | a v. a \<in> lang (Star digit)
                    \<and> v \<in> {b @ c | b c. b \<in> lang (Opt (Sym [Ch CHR ''.''])) \<and> c \<in> lang (Plus digit)}}"
    by (simp add: num_literal_def del: lang.simps(1,5,6,7))
  also have "\<dots> = {a @ b @ c | a b c. a \<in> lang (Star digit)
                    \<and> b \<in> lang (Opt (Sym [Ch CHR ''.''])) \<and> c \<in> lang (Plus digit)}"
    by blast
  finally show ?thesis unfolding 1 2 3 by blast
qed

lemma lit_match_length: "lit_match w s = Some t \<Longrightarrow> s = take (length w) s @ t \<and> length w \<le> length s"
proof -
  assume "lit_match w s = Some t"
  then obtain u where u: "s = u @ t" "lower u = lower w" by (auto simp: lit_match_iff)
  then have "length u = length w" by (metis lower_def length_map)
  with u show ?thesis by simp
qed

lemma num_literalI:
  assumes "\<forall>y \<in> set a. is_digit y" and "b = [] \<or> b = ''.''"
    and "c \<noteq> []" and "\<forall>y \<in> set c. is_digit y"
  shows "a @ b @ c \<in> lang num_literal"
proof -
  have "\<exists>a' b' c'. a @ b @ c = a' @ b' @ c' \<and> (\<forall>y \<in> set a'. is_digit y)
      \<and> (b' = [] \<or> b' = ''.'') \<and> c' \<noteq> [] \<and> (\<forall>y \<in> set c'. is_digit y)"
    using assms by (intro exI [of _ a] exI [of _ b] exI [of _ c]) simp
  then show ?thesis unfolding lang_num_literal by simp
qed

lemma rm_Grp_Lit:
  "rm (Grp (Lit w)) (g, s)
     = (case lit_match w s of None \<Rightarrow> [] | Some t \<Rightarrow> [(g @ [take (length w) s], t)])"
proof (cases "lit_match w s")
  case None
  then show ?thesis by (simp add: rm.simps)
next
  case (Some t)
  from lit_match_length [OF Some] have "length s - length t = length w"
    by (metis add_diff_cancel_right' length_append length_take min.absorb2)
  with Some show ?thesis by (simp add: rm.simps)
qed

lemma re_match_update:
  assumes "plain_name nm"
  shows "re_match (update_pattern nm) line
           = (case lit_match nm (dropWhile py_isspace line) of
                None \<Rightarrow> None
              | Some r1 \<Rightarrow>
                  first (after_name num_literal
                           ([takeWhile py_isspace line,
                             take (length nm) (dropWhile py_isspace line)], r1)))"
proof -
  have start: "u \<noteq> [] \<and> \<not> py_isspace (hd u)" if "u \<in> lang (Lit nm)" for u
  proof -
    from that have eq: "lower u = lower nm" by simp
    from assms obtain a as where nm: "nm = a # as" "\<not> py_isspace a"
      by (cases nm) (simp_all add: plain_name_def)
    from eq nm obtain b bs where u: "u = b # bs"
      by (cases u) (simp_all add: lower_def)
    from eq nm u have "py_lower b = py_lower a" by (simp add: lower_def)
    then have "py_isspace b = py_isspace a" by (rule lower_space)
    with nm u show ?thesis by simp
  qed
  have "re_match (update_pattern nm) line
      = first (concat (map (after_name num_literal)
          (rm (Grp (Lit nm)) ([takeWhile py_isspace line], dropWhile py_isspace line))))"
    unfolding re_match_first update_pattern_def
    using rm_assignment [OF start, of "Lit nm" num_literal line] by simp
  then show ?thesis
    by (simp only: rm_Grp_Lit) (simp split: option.splits)
qed

lemma after_name_iff:
  "after_name number (h, r1) \<noteq> [] \<longleftrightarrow>
     (\<exists>r2. dropWhile py_isspace r1 = CHR ''='' # r2
        \<and> rm (Grp number) (h, dropWhile py_isspace r2) \<noteq> [])"
proof (cases "dropWhile py_isspace r1")
  case Nil
  then show ?thesis by (simp only: after_name_def snd_conv list.case) simp
next
  case (Cons c r2)
  then show ?thesis by (simp only: after_name_def snd_conv fst_conv list.case) auto
qed

lemma num_literal_matches: "rm (Grp num_literal) (g, x) \<noteq> [] \<longleftrightarrow> starts_number x"
proof
  assume "rm (Grp num_literal) (g, x) \<noteq> []"
  then have "\<exists>u \<in> lang num_literal. \<exists>t. x = u @ t"
    by (simp only: rm_empty_iff lang.simps) blast
  then obtain u t where u: "u \<in> lang num_literal" "x = u @ t" by blast
  then obtain a b c where abc: "u = a @ b @ c" "\<forall>y \<in> set a. is_digit y"
    "b = [] \<or> b = ''.''" "c \<noteq> []" "\<forall>y \<in> set c. is_digit y"
    unfolding lang_num_literal by blast
  from abc(4,5) obtain d c' where c: "c = d # c'" "is_digit d" by (cases c) auto
  show "starts_number x"
  proof (cases a)
    case (Cons y ys)
    with abc u show ?thesis by (simp add: starts_number_def)
  next
    case Nil
    with abc(1,3) c u show ?thesis by (auto simp: starts_number_def)
  qed
next
  assume s: "starts_number x"
  have "\<exists>u \<in> lang num_literal. \<exists>t. x = u @ t"
  proof (cases x)
    case Nil
    with s show ?thesis by (simp add: starts_number_def)
  next
    case (Cons c cs)
    show ?thesis
    proof (cases "is_digit c")
      case True
      have "[c] \<in> lang num_literal"
        using num_literalI [of "[]" "[]" "[c]"] True by simp
      moreover have "x = [c] @ cs" using Cons by simp
      ultimately show ?thesis by blast
    next
      case False
      with s Cons obtain d ds where d: "c = CHR ''.''" "cs = d # ds" "is_digit d"
        by (auto simp: starts_number_def split: list.splits)
      have "[CHR ''.'', d] \<in> lang num_literal"
        using num_literalI [of "[]" "''.''" "[d]"] d(3) by simp
      moreover have "x = [CHR ''.'', d] @ ds" using Cons d by simp
      ultimately show ?thesis by blast
    qed
  qed
  then show "rm (Grp num_literal) (g, x) \<noteq> []"
    by (simp only: rm_empty_iff lang.simps) blast
qed

lemma int_literal_matches: "rm (Grp int_literal) (g, x) \<noteq> [] \<Longrightarrow> starts_number x"
  by (cases x) (auto simp: int_literal_def starts_number_def rm.simps split: if_splits)

lemma number_matches:
  assumes "number = int_literal \<or> number = num_literal"
    and "rm (Grp number) (g, x) \<noteq> []"
  shows "rm (Grp num_literal) (h, x) \<noteq> []"
  using assms int_literal_matches num_literal_matches by blast

lemma digit_char: "d < 10 \<Longrightarrow> is_digit (char_of (48 + d)) \<and> digit_val (char_of (48 + d)) = d"
  by (simp add: is_digit_def digit_val_def code_point_char_of)

lemma digits_of_digits: "digits_of n \<noteq> [] \<and> (\<forall>c \<in> set (digits_of n). is_digit c)"
proof (induction n rule: digits_of.induct)
  case (1 n)
  show ?case
  proof (cases "n < 10")
    case True
    then show ?thesis by (simp add: digits_of.simps [of n] digit_char)
  next
    case False
    then have "n mod 10 < 10" by simp
    with False 1 show ?thesis by (simp add: digits_of.simps [of n] digit_char)
  qed
qed

lemma int_of_digits_snoc: "int_of_digits (xs @ [c]) = 10 * int_of_digits xs + digit_val c"
  by (simp add: int_of_digits_def)

lemma int_of_digits_of: "int_of_digits (digits_of n) = n"
proof (induction n rule: digits_of.induct)
  case (1 n)
  show ?case
  proof (cases "n < 10")
    case True
    then show ?thesis by (simp add: digits_of.simps [of n] int_of_digits_def digit_char)
  next
    case False
    then have "n mod 10 < 10" by simp
    with False 1 show ?thesis
      by (simp add: digits_of.simps [of n] int_of_digits_snoc digit_char)
  qed
qed

lemma digit_not_dot: "is_digit c \<Longrightarrow> c \<noteq> CHR ''.''"
  by (auto simp: is_digit_def code_point_def)

lemma digit_not_newline: "is_digit c \<Longrightarrow> c \<noteq> CHR 0x0A"
  by (auto simp: is_digit_def code_point_def)

lemma star_match_hd: "\<exists>rest. star_match k s = dropWhile (in_classes k) s # rest"
  by (induction s) auto

lemma star_match_snoc:
  assumes "\<forall>c \<in> set xs. in_classes k c" and "in_classes k d"
  shows "\<exists>more. star_match k (xs @ [d]) = [] # [d] # more"
  using assms by (induction xs) auto

lemma first_int_literal:
  assumes "ds \<noteq> []" and "\<forall>c \<in> set ds. is_digit c"
  shows "first (rm (Grp int_literal) (g, ds)) = Some (g @ [ds])"
proof -
  from assms obtain d cs where ds: "ds = d # cs" "is_digit d" "\<forall>c \<in> set cs. is_digit c"
    by (cases ds) auto
  from star_match_hd [of digit cs] obtain rest
    where "star_match digit cs = dropWhile (in_classes digit) cs # rest" by blast
  moreover have "dropWhile (in_classes digit) cs = []" using ds(3) by simp
  ultimately show ?thesis
    using ds by (simp add: int_literal_def rm.simps first_def)
qed

lemma first_num_literal:
  assumes "ds \<noteq> []" and "\<forall>c \<in> set ds. is_digit c"
  shows "first (rm (Grp num_literal) (g, ds)) = Some (g @ [ds])"
proof -
  from assms obtain xs d where ds: "ds = xs @ [d]" by (metis rev_exhaust)
  with assms(2) have dig: "\<forall>c \<in> set xs. in_classes digit c" "in_classes digit d" by simp_all
  from star_match_snoc [OF dig] obtain more
    where sm: "star_match digit (xs @ [d]) = [] # [d] # more" by blast
  let ?R = "Cat (Opt (Sym [Ch CHR ''.''])) (Plus digit)"
  have e: "rm ?R (g, []) = []" by (simp add: rm.simps)
  have "d \<noteq> CHR ''.''" using dig(2) by (simp add: digit_not_dot)
  then have o: "rm ?R (g, [d]) = [(g, [])]" using dig(2) by (simp add: rm.simps)
  have "rm num_literal (g, ds) = concat (map (\<lambda>t. rm ?R (g, t)) (star_match digit ds))"
    by (simp add: num_literal_def rm.simps comp_def)
  then obtain more' where "rm num_literal (g, ds) = (g, []) # more'"
    unfolding ds sm by (simp add: e o)
  then show ?thesis by (simp add: rm.simps first_def)
qed

lemma first_number_digits:
  assumes "number = int_literal \<or> number = num_literal"
    and "ds \<noteq> []" and "\<forall>c \<in> set ds. is_digit c"
  shows "first (rm (Grp number) (g, ds)) = Some (g @ [ds])"
  using assms first_int_literal first_num_literal by blast

lemma number_groupless:
  "number = int_literal \<or> number = num_literal \<Longrightarrow> groupless number"
  by (auto simp: int_literal_def num_literal_def)

lemma first_Some: "first ms = Some g \<Longrightarrow> \<exists>t. (g, t) \<in> set ms"
  by (cases ms) (auto simp: first_def)

lemma after_name_groups:
  assumes "number = int_literal \<or> number = num_literal"
    and "(G, t) \<in> set (after_name number (h, r1))"
  shows "\<exists>vs r2. G = h @ [vs] \<and> dropWhile py_isspace r1 = CHR ''='' # r2
           \<and> rm (Grp num_literal) (h, dropWhile py_isspace r2) \<noteq> []"
proof -
  from assms(2) have ne: "after_name number (h, r1) \<noteq> []" by auto
  then obtain r2 where r2: "dropWhile py_isspace r1 = CHR ''='' # r2"
    and m: "rm (Grp number) (h, dropWhile py_isspace r2) \<noteq> []"
    by (auto simp: after_name_iff)
  from assms(2) r2 have "(G, t) \<in> set (rm (Grp number) (h, dropWhile py_isspace r2))"
    by (simp add: after_name_def)
  from rm_Grp_groupless [OF number_groupless [OF assms(1)] this]
  obtain vs where "G = h @ [vs]" by blast
  with r2 number_matches [OF assms(1) m] show ?thesis by blast
qed

text \<open>What a match of a detection pattern looks like.\<close>

lemma pattern_match_shape:
  assumes "p \<in> set PARAMETER_PATTERNS" and "re_match p line = Some G"
  shows "\<exists>vs r2. G = [takeWhile py_isspace line, token line, vs]
           \<and> token line \<noteq> []
           \<and> dropWhile py_isspace (after_token line) = CHR ''='' # r2
           \<and> rm (Grp num_literal) (h, dropWhile py_isspace r2) \<noteq> []"
proof -
  from assms(1) obtain nm number where p: "p = assignment nm number"
    and pp: "(nm, number) \<in> set pattern_parts"
    by (auto simp: PARAMETER_PATTERNS_def)
  from pattern_parts_shape [OF pp] have w: "word_regex nm" and c: "consumes_some nm"
    and n: "number = int_literal \<or> number = num_literal" by simp_all
  let ?h = "[takeWhile py_isspace line, token line]"
  from assms(2) have tok: "token line \<in> lang nm"
    and f: "first (after_name number (?h, after_token line)) = Some G"
    unfolding p re_match_assignment [OF w c n] by (simp_all split: if_splits)
  from first_Some [OF f] obtain t where "(G, t) \<in> set (after_name number (?h, after_token line))"
    by blast
  from after_name_groups [OF n this] obtain vs r2 where "G = ?h @ [vs]"
    "dropWhile py_isspace (after_token line) = CHR ''='' # r2"
    "rm (Grp num_literal) (?h, dropWhile py_isspace r2) \<noteq> []" by blast
  moreover from this(3) have "rm (Grp num_literal) (h, dropWhile py_isspace r2) \<noteq> []"
    by (simp add: num_literal_matches)
  moreover from tok lang_nonempty [OF c] have "token line \<noteq> []" by auto
  ultimately show ?thesis by simp
qed

lemma first_pattern_Some:
  "first_pattern ps line = Some G \<Longrightarrow> \<exists>p \<in> set ps. re_match p line = Some G"
  by (induction ps) (auto split: option.splits)

lemma first_pattern_None:
  "first_pattern ps line = None \<longleftrightarrow> (\<forall>p \<in> set ps. re_match p line = None)"
  by (induction ps) (auto split: option.splits)

lemma occurs_iff:
  "occurs nm line \<longleftrightarrow> first_pattern PARAMETER_PATTERNS line \<noteq> None \<and> token line = nm"
proof
  assume "occurs nm line"
  then obtain p indent vs where p: "p \<in> set PARAMETER_PATTERNS"
    "re_match p line = Some [indent, nm, vs]" by (auto simp: occurs_def)
  from pattern_match_shape [OF this] have "token line = nm" by auto
  moreover from p have "first_pattern PARAMETER_PATTERNS line \<noteq> None"
    by (auto simp: first_pattern_None)
  ultimately show "first_pattern PARAMETER_PATTERNS line \<noteq> None \<and> token line = nm" by simp
next
  assume a: "first_pattern PARAMETER_PATTERNS line \<noteq> None \<and> token line = nm"
  then obtain G where "first_pattern PARAMETER_PATTERNS line = Some G" by auto
  from first_pattern_Some [OF this] obtain p where p: "p \<in> set PARAMETER_PATTERNS"
    "re_match p line = Some G" by blast
  from pattern_match_shape [OF this] a obtain vs where "G = [takeWhile py_isspace line, nm, vs]"
    by auto
  with p show "occurs nm line" by (auto simp: occurs_def)
qed

text \<open>The inner loop, in terms of the first pattern that matches.\<close>

lemma scan_patterns_first:
  assumes "set ps \<subseteq> set PARAMETER_PATTERNS"
  shows "scan_patterns ps line n seen
           = (case first_pattern ps line of
                None \<Rightarrow> (None, seen)
              | Some G \<Rightarrow>
                  if token line \<in> seen then (None, seen)
                  else (Some (make_parameter (token line) (G ! 2) n), insert (token line) seen))"
  using assms
proof (induction ps)
  case Nil
  then show ?case by simp
next
  case (Cons p ps)
  then have p: "p \<in> set PARAMETER_PATTERNS" and ps: "set ps \<subseteq> set PARAMETER_PATTERNS"
    by simp_all
  show ?case
  proof (cases "re_match p line")
    case None
    with Cons.IH [OF ps] show ?thesis by simp
  next
    case (Some G)
    from pattern_match_shape [OF p Some] obtain vs
      where G: "G = [takeWhile py_isspace line, token line, vs]" by blast
    show ?thesis
    proof (cases "token line \<in> seen")
      case True
      with Some G Cons.IH [OF ps] show ?thesis by (simp split: option.splits)
    next
      case False
      with Some G show ?thesis by simp
    qed
  qed
qed

lemma rtrim_hd: "\<not> P c \<Longrightarrow> \<exists>t. rev (dropWhile P (rev (c # r))) = c # t"
proof -
  assume c: "\<not> P c"
  have "\<exists>X. dropWhile P (rev r @ [c]) = X @ [c]"
    using c by (simp add: dropWhile_append)
  then obtain X where "dropWhile P (rev (c # r)) = X @ [c]" by auto
  then have "rev (dropWhile P (rev (c # r))) = c # rev X" by simp
  then show ?thesis by blast
qed

lemma matched_not_skipped:
  assumes "first_pattern PARAMETER_PATTERNS line \<noteq> None"
  shows "\<not> skipped line"
proof -
  from assms obtain G where "first_pattern PARAMETER_PATTERNS line = Some G" by auto
  from first_pattern_Some [OF this] obtain p where "p \<in> set PARAMETER_PATTERNS"
    "re_match p line = Some G" by blast
  from pattern_match_shape [OF this] have "token line \<noteq> []" by blast
  then obtain c cs where t: "token line = c # cs" by (cases "token line") auto
  with token_word_chars [of line] have w: "word_char c" by simp
  from t token_split [of line] have "dropWhile py_isspace line = c # cs @ after_token line"
    by simp
  moreover from w have "\<not> py_isspace c" by (rule word_char_not_space)
  ultimately obtain t' where "strip line = c # t'"
    unfolding strip_def using rtrim_hd by metis
  moreover from w have "c \<noteq> CHR ''#''" using hash_not_word by auto
  ultimately show ?thesis by (simp add: skipped_def startswith_def)
qed

lemma hints_line_number [simp]: "line_number (apply_parameter_hints p) = line_number p"
  by (simp add: apply_parameter_hints_def Let_def)

lemma make_parameter_name [simp]: "name (make_parameter nm vs n) = nm"
  by (simp add: make_parameter_def Parameter_def split: prod.splits)

lemma make_parameter_line [simp]: "line_number (make_parameter nm vs n) = n"
  by (simp add: make_parameter_def Parameter_def split: prod.splits)

lemma detect_lines_step:
  "detect_lines (line # rest) n seen
     = (case first_pattern PARAMETER_PATTERNS line of
          None \<Rightarrow> detect_lines rest (n + 1) seen
        | Some G \<Rightarrow>
            if token line \<in> seen then detect_lines rest (n + 1) seen
            else make_parameter (token line) (G ! 2) n
                   # detect_lines rest (n + 1) (insert (token line) seen))"
proof (cases "skipped line")
  case True
  with matched_not_skipped [of line] have "first_pattern PARAMETER_PATTERNS line = None"
    by blast
  with True show ?thesis by simp
next
  case False
  then show ?thesis
    by (simp add: scan_patterns_first split: option.splits)
qed


lemma detect_lines_sound:
  assumes "p \<in> set (detect_lines ls n seen)"
  shows "\<exists>i G. i < length ls \<and> first_pattern PARAMETER_PATTERNS (ls ! i) = Some G
           \<and> p = make_parameter (token (ls ! i)) (G ! 2) (n + i)
           \<and> occurs (name p) (ls ! i) \<and> (\<forall>j < i. \<not> occurs (name p) (ls ! j))
           \<and> name p \<notin> seen"
  using assms
proof (induction ls arbitrary: n seen)
  case Nil
  then show ?case by simp
next
  case (Cons line rest)
  let ?P = "\<lambda>i G. i < length (line # rest)
        \<and> first_pattern PARAMETER_PATTERNS ((line # rest) ! i) = Some G
        \<and> p = make_parameter (token ((line # rest) ! i)) (G ! 2) (n + i)
        \<and> occurs (name p) ((line # rest) ! i)
        \<and> (\<forall>j < i. \<not> occurs (name p) ((line # rest) ! j)) \<and> name p \<notin> seen"
  have later: "\<exists>i G. ?P i G"
    if mem: "p \<in> set (detect_lines rest (n + 1) seen')" and sub: "seen \<subseteq> seen'"
      and no: "name p \<notin> seen' \<Longrightarrow> \<not> occurs (name p) line" for seen'
  proof -
    from Cons.IH [OF mem] obtain i G where i: "i < length rest"
      "first_pattern PARAMETER_PATTERNS (rest ! i) = Some G"
      "p = make_parameter (token (rest ! i)) (G ! 2) (n + 1 + i)"
      "occurs (name p) (rest ! i)" "\<forall>j < i. \<not> occurs (name p) (rest ! j)"
      "name p \<notin> seen'" by blast
    from no i(6) have "\<not> occurs (name p) line" by simp
    with i(5) have "\<forall>j < Suc i. \<not> occurs (name p) ((line # rest) ! j)"
      by (simp add: nth_Cons split: nat.splits)
    with i sub have "?P (Suc i) G" by auto
    then show ?thesis by blast
  qed
  show ?case
  proof (cases "first_pattern PARAMETER_PATTERNS line")
    case None
    with Cons.prems have "p \<in> set (detect_lines rest (n + 1) seen)"
      by (simp only: detect_lines_step) simp
    moreover from None have "\<not> occurs (name p) line" by (simp add: occurs_iff)
    ultimately show ?thesis using later [of seen] by blast
  next
    case (Some G)
    show ?thesis
    proof (cases "token line \<in> seen")
      case True
      with Some Cons.prems have "p \<in> set (detect_lines rest (n + 1) seen)"
        by (simp only: detect_lines_step) simp
      moreover from True have "name p \<notin> seen \<Longrightarrow> \<not> occurs (name p) line"
        by (auto simp: occurs_iff)
      ultimately show ?thesis using later [of seen] by blast
    next
      case False
      with Some Cons.prems
      have "p = make_parameter (token line) (G ! 2) n
          \<or> p \<in> set (detect_lines rest (n + 1) (insert (token line) seen))"
        by (simp only: detect_lines_step) simp
      then show ?thesis
      proof
        assume p: "p = make_parameter (token line) (G ! 2) n"
        with Some False have "?P 0 G" by (simp add: occurs_iff)
        then show ?thesis by blast
      next
        assume "p \<in> set (detect_lines rest (n + 1) (insert (token line) seen))"
        moreover have "name p \<notin> insert (token line) seen \<Longrightarrow> \<not> occurs (name p) line"
          by (auto simp: occurs_iff)
        ultimately show ?thesis using later [of "insert (token line) seen"] by blast
      qed
    qed
  qed
qed

lemma detect_lines_complete:
  assumes "i < length ls" and "occurs nm (ls ! i)" and "\<forall>j < i. \<not> occurs nm (ls ! j)"
    and "nm \<notin> seen"
  shows "\<exists>G. first_pattern PARAMETER_PATTERNS (ls ! i) = Some G
           \<and> make_parameter nm (G ! 2) (n + i) \<in> set (detect_lines ls n seen)"
  using assms
proof (induction ls arbitrary: i n seen)
  case Nil
  then show ?case by simp
next
  case (Cons line rest)
  show ?case
  proof (cases i)
    case 0
    with Cons.prems(2) obtain G where G: "first_pattern PARAMETER_PATTERNS line = Some G"
      and t: "token line = nm" by (auto simp: occurs_iff)
    with Cons.prems(4) 0 show ?thesis by (simp only: detect_lines_step) simp
  next
    case (Suc k)
    with Cons.prems have k: "k < length rest" "occurs nm (rest ! k)"
      "\<forall>j < k. \<not> occurs nm (rest ! j)" and l: "\<not> occurs nm line"
      by auto
    have step: "\<exists>G. first_pattern PARAMETER_PATTERNS (rest ! k) = Some G
        \<and> make_parameter nm (G ! 2) (n + 1 + k) \<in> set (detect_lines rest (n + 1) seen')"
      if "nm \<notin> seen'" for seen'
      using Cons.IH [OF k that] .
    show ?thesis
    proof (cases "first_pattern PARAMETER_PATTERNS line")
      case None
      with step [OF Cons.prems(4)] Suc show ?thesis
        by (simp only: detect_lines_step) simp
    next
      case (Some G')
      with l have ne: "token line \<noteq> nm" by (simp add: occurs_iff)
      show ?thesis
      proof (cases "token line \<in> seen")
        case True
        with Some step [OF Cons.prems(4)] Suc show ?thesis
          by (simp only: detect_lines_step) simp
      next
        case False
        from ne Cons.prems(4) have "nm \<notin> insert (token line) seen" by simp
        from step [OF this] Some False Suc show ?thesis
          by (simp only: detect_lines_step) auto
      qed
    qed
  qed
qed

lemma split_lines_nonempty: "split_lines s \<noteq> []"
  by (induction s) (auto split: list.splits)

lemma join_split: "join_lines (split_lines s) = s"
proof (induction s)
  case Nil
  show ?case by simp
next
  case (Cons c s)
  show ?case
  proof (cases "c = CHR 0x0A")
    case True
    obtain l ls where "split_lines s = l # ls"
      using split_lines_nonempty [of s] by (cases "split_lines s") auto
    with True Cons show ?thesis by simp
  next
    case False
    obtain l ls where sp: "split_lines s = l # ls"
      using split_lines_nonempty [of s] by (cases "split_lines s") auto
    with Cons have "join_lines (l # ls) = s" by simp
    then have "join_lines ((c # l) # ls) = c # s" by (cases ls) auto
    with False sp show ?thesis by simp
  qed
qed

lemma split_lines_no_newline: "l \<in> set (split_lines s) \<Longrightarrow> CHR 0x0A \<notin> set l"
proof (induction s arbitrary: l)
  case Nil
  then show ?case by simp
next
  case (Cons c s)
  obtain m ms where sp: "split_lines s = m # ms"
    using split_lines_nonempty [of s] by (cases "split_lines s") auto
  show ?case
  proof (cases "c = CHR 0x0A")
    case True
    with Cons show ?thesis by auto
  next
    case False
    with Cons.prems sp have "l = c # m \<or> l \<in> set ms" by simp
    then show ?thesis
    proof
      assume "l = c # m"
      moreover from sp Cons.IH [of m] have "CHR 0x0A \<notin> set m" by simp
      ultimately show ?thesis using False by auto
    next
      assume "l \<in> set ms"
      with sp Cons.IH [of l] show ?thesis by simp
    qed
  qed
qed

lemma split_no_newline: "CHR 0x0A \<notin> set l \<Longrightarrow> split_lines l = [l]"
  by (induction l) auto

lemma split_append_newline:
  "CHR 0x0A \<notin> set l \<Longrightarrow> split_lines (l @ CHR 0x0A # s) = l # split_lines s"
  by (induction l) auto

lemma split_join:
  assumes "ls \<noteq> []" and "\<forall>l \<in> set ls. CHR 0x0A \<notin> set l"
  shows "split_lines (join_lines ls) = ls"
  using assms
proof (induction ls rule: join_lines.induct)
  case 1
  then show ?case by simp
next
  case (2 l)
  then show ?case by (simp add: split_no_newline)
next
  case (3 l m ls)
  then have "split_lines (join_lines (m # ls)) = m # ls" by simp
  with 3 show ?case by (simp add: split_append_newline)
qed

text \<open>The characters of a formatted value.\<close>

lemma rtrim_prefix: "\<exists>t. s = rev (dropWhile P (rev s)) @ t"
proof -
  have "rev s = takeWhile P (rev s) @ dropWhile P (rev s)" by simp
  then have "s = rev (dropWhile P (rev s)) @ rev (takeWhile P (rev s))"
    by (metis rev_append rev_rev_ident)
  then show ?thesis by blast
qed

lemma rstrip_subset: "set (rstrip c s) \<subseteq> set s"
  unfolding rstrip_def by (metis set_dropWhileD set_rev subsetI)

lemma rstrip_keeps_hd:
  assumes "s = d # s'" and "\<exists>x \<in> set s. x \<noteq> c"
  shows "\<exists>t. rstrip c s = d # t"
proof -
  from assms(2) have "dropWhile (\<lambda>x. x = c) (rev s) \<noteq> []" by (auto simp: dropWhile_eq_Nil_conv)
  then have ne: "rstrip c s \<noteq> []" by (simp add: rstrip_def)
  from rtrim_prefix [of s "\<lambda>x. x = c"] obtain t where "s = rstrip c s @ t"
    by (auto simp: rstrip_def)
  with ne assms(1) show ?thesis by (cases "rstrip c s") auto
qed

lemma str_int_nonneg: "0 \<le> i \<Longrightarrow> str_int i = digits_of (nat i)"
  by (simp add: str_int_def)

lemma dot_not_zero: "CHR ''.'' \<noteq> CHR ''0''"
  by simp

lemma format_value_integral:
  "num_val v = of_int (py_int v) \<Longrightarrow> format_value v = str_int (py_int v)"
  by (cases v) (simp_all add: format_value_def del: py_int.simps)

lemma py_int_nonneg: "0 \<le> num_val v \<Longrightarrow> 0 \<le> py_int v"
  by (cases v) simp_all

lemma format_value_digit:
  assumes "0 \<le> num_val v"
  shows "\<exists>d t. format_value v = d # t \<and> is_digit d"
proof -
  have dig: "\<exists>d t. digits_of n = d # t \<and> is_digit d" for n
    using digits_of_digits [of n] by (cases "digits_of n") auto
  show ?thesis
  proof (cases v)
    case (PyInt i)
    with assms dig show ?thesis by (simp add: format_value_def str_int_nonneg)
  next
    case (PyFloat x)
    with assms have x: "0 \<le> x" by simp
    show ?thesis
    proof (cases "x = of_int (py_int v)")
      case True
      have "num_val v = x" using PyFloat by simp
      with True have "num_val v = of_int (py_int v)" by (simp only:)
      then have "format_value v = str_int (py_int v)"
        by (rule format_value_integral)
      with py_int_nonneg [OF assms] dig show ?thesis by (simp add: str_int_nonneg)
    next
      case False
      let ?m = "round_half_even (\<bar>x\<bar> * 1000000)"
      from dig [of "?m div 1000000"] obtain d t
        where d: "digits_of (?m div 1000000) = d # t" "is_digit d" by blast
      let ?s = "format_6f x"
      have s: "?s = d # t @ ''.'' @ pad6 (digits_of (?m mod 1000000))"
        using x d by (simp add: format_6f_def Let_def)
      then have "\<exists>y \<in> set ?s. y \<noteq> CHR ''0''" by auto
      from rstrip_keeps_hd [OF s this] obtain t1 where t1: "rstrip CHR ''0'' ?s = d # t1"
        by blast
      from d(2) have "d \<noteq> CHR ''.''" by (rule digit_not_dot)
      with t1 have "\<exists>y \<in> set (rstrip CHR ''0'' ?s). y \<noteq> CHR ''.''" by auto
      from rstrip_keeps_hd [OF t1 this] obtain t2
        where "rstrip CHR ''.'' (rstrip CHR ''0'' ?s) = d # t2" by blast
      moreover from False PyFloat
      have "format_value v = rstrip CHR ''.'' (rstrip CHR ''0'' ?s)"
        by (simp add: format_value_def del: py_int.simps)
      ultimately show ?thesis using d(2) by simp
    qed
  qed
qed

lemma not_newline:
  "CHR ''-'' \<noteq> CHR 0x0A" "CHR ''.'' \<noteq> CHR 0x0A" "CHR ''0'' \<noteq> CHR 0x0A" "CHR '' '' \<noteq> CHR 0x0A"
  "CHR ''='' \<noteq> CHR 0x0A"
  by simp_all

lemma digits_no_newline: "CHR 0x0A \<notin> set (digits_of n)"
  using digits_of_digits [of n] digit_not_newline by blast

lemma format_value_no_newline: "CHR 0x0A \<notin> set (format_value v)"
proof (cases v)
  case (PyInt i)
  then show ?thesis
    using digits_no_newline by (simp add: format_value_def str_int_def)
next
  case (PyFloat x)
  have "CHR 0x0A \<notin> set (format_6f x)"
    using digits_no_newline by (auto simp: format_6f_def Let_def pad6_def)
  then have "CHR 0x0A \<notin> set (rstrip CHR ''.'' (rstrip CHR ''0'' (format_6f x)))"
    using rstrip_subset by blast
  with PyFloat show ?thesis
    using digits_no_newline by (simp add: format_value_def str_int_def)
qed

lemma match_index_Some:
  "match_index nm ls = Some i \<longleftrightarrow>
     i < length ls \<and> re_match (update_pattern nm) (ls ! i) \<noteq> None
     \<and> (\<forall>j < i. re_match (update_pattern nm) (ls ! j) = None)"
proof (induction ls arbitrary: i)
  case Nil
  show ?case by simp
next
  case (Cons line rest)
  show ?case
  proof (cases "re_match (update_pattern nm) line \<noteq> None")
    case True
    then show ?thesis by (cases i) auto
  next
    case False
    show ?thesis
    proof (cases i)
      case 0
      with False show ?thesis by simp
    next
      case (Suc k)
      have "(\<forall>j < Suc k. re_match (update_pattern nm) ((line # rest) ! j) = None)
          \<longleftrightarrow> (\<forall>j < k. re_match (update_pattern nm) (rest ! j) = None)"
        using False by (auto simp: nth_Cons split: nat.splits) 
      with False Suc Cons [of k] show ?thesis by auto
    qed
  qed
qed

lemma match_index_None:
  "match_index nm ls = None \<longleftrightarrow> (\<forall>l \<in> set ls. re_match (update_pattern nm) l = None)"
  by (induction ls) auto

lemma update_lines_index:
  "update_lines nm v ls
     = (case match_index nm ls of
          None \<Rightarrow> ls
        | Some i \<Rightarrow>
            ls[i := hd (the (re_match (update_pattern nm) (ls ! i))) @ nm @ '' = ''
                      @ format_value v])"
proof (induction ls)
  case Nil
  show ?case by simp
next
  case (Cons line rest)
  show ?case
  proof (cases "re_match (update_pattern nm) line")
    case None
    with Cons show ?thesis by (simp split: option.splits)
  next
    case (Some G)
    then show ?thesis by simp
  qed
qed

lemma case_list_ex:
  "(case X of [] \<Rightarrow> False | c # r2 \<Rightarrow> c = a \<and> P r2) = (\<exists>r2. X = a # r2 \<and> P r2)"
  by (cases X) auto

lemma re_match_update_iff:
  assumes "plain_name nm"
  shows "re_match (update_pattern nm) line \<noteq> None \<longleftrightarrow> assigns_to nm line"
proof (cases "lit_match nm (dropWhile py_isspace line)")
  case None
  then show ?thesis by (simp add: re_match_update [OF assms] assigns_to_def)
next
  case (Some r1)
  let ?h = "[takeWhile py_isspace line, take (length nm) (dropWhile py_isspace line)]"
  have "re_match (update_pattern nm) line \<noteq> None
      \<longleftrightarrow> after_name num_literal (?h, r1) \<noteq> []"
    using Some by (simp add: re_match_update [OF assms] first_def split: list.splits)
  also have "\<dots> \<longleftrightarrow> (\<exists>r2. dropWhile py_isspace r1 = CHR ''='' # r2
        \<and> starts_number (dropWhile py_isspace r2))"
    by (simp only: after_name_iff num_literal_matches)
  also have "\<dots> \<longleftrightarrow> assigns_to nm line"
    using Some by (simp only: assigns_to_def option.case case_list_ex)
  finally show ?thesis .
qed

lemma re_match_update_indent:
  assumes "plain_name nm" and "re_match (update_pattern nm) line = Some G"
  shows "hd G = takeWhile py_isspace line"
proof -
  from assms(2) obtain r1 where "lit_match nm (dropWhile py_isspace line) = Some r1"
    and f: "first (after_name num_literal
                ([takeWhile py_isspace line, take (length nm) (dropWhile py_isspace line)], r1))
            = Some G"
    by (auto simp: re_match_update [OF assms(1)] split: option.splits)
  from first_Some [OF f] obtain t where "(G, t) \<in> set (after_name num_literal
      ([takeWhile py_isspace line, take (length nm) (dropWhile py_isspace line)], r1))" by blast
  from after_name_groups [OF _ this] obtain vs
    where "G = [takeWhile py_isspace line, take (length nm) (dropWhile py_isspace line)] @ [vs]"
    by blast
  then show ?thesis by simp
qed

lemma lit_match_self: "lit_match nm (nm @ x) = Some x"
  by (induction nm) auto

lemma word_plain: "nm \<noteq> [] \<Longrightarrow> \<forall>c \<in> set nm. word_char c \<Longrightarrow> plain_name nm"
  by (auto simp: plain_name_def word_char_not_space word_char_not_equals)

lemma occurs_assigns:
  assumes "occurs nm line"
  shows "plain_name nm \<and> (\<forall>c \<in> set nm. word_char c) \<and> assigns_to nm line"
proof -
  from assms obtain p indent vs where p: "p \<in> set PARAMETER_PATTERNS"
    "re_match p line = Some [indent, nm, vs]" by (auto simp: occurs_def)
  from pattern_match_shape [OF p, of "[]"] obtain r2 where tok: "token line = nm" "nm \<noteq> []"
    and eq: "dropWhile py_isspace (after_token line) = CHR ''='' # r2"
    and num: "rm (Grp num_literal) ([], dropWhile py_isspace r2) \<noteq> []" by auto
  from tok token_word_chars [of line] have w: "\<forall>c \<in> set nm. word_char c" by simp
  have "lit_match nm (dropWhile py_isspace line) = Some (after_token line)"
    using token_split [of line] tok lit_match_self by simp
  with eq num have "assigns_to nm line"
    by (simp add: assigns_to_def num_literal_matches)
  with w tok word_plain show ?thesis by simp
qed

text \<open>The line that the rewrite writes.\<close>

lemma space_is_space: "py_isspace CHR '' ''"
  by (simp add: py_isspace_def code_point_def)

lemma rewritten_split:
  assumes "\<forall>c \<in> set ws. py_isspace c" and "plain_name nm"
  shows "takeWhile py_isspace (ws @ nm @ x) = ws \<and> dropWhile py_isspace (ws @ nm @ x) = nm @ x"
proof -
  from assms(2) obtain a as where "nm = a # as" "\<not> py_isspace a"
    by (cases nm) (simp_all add: plain_name_def)
  with assms(1) show ?thesis by (simp add: takeWhile_append2 dropWhile_append2)
qed

lemma rewritten_assigns:
  assumes "\<forall>c \<in> set ws. py_isspace c" and "plain_name nm" and "is_digit d"
  shows "assigns_to nm (ws @ nm @ '' = '' @ d # t)"
proof -
  have "dropWhile py_isspace (ws @ nm @ '' = '' @ d # t) = nm @ '' = '' @ d # t"
    using rewritten_split [OF assms(1,2)] by simp
  moreover have "lit_match nm (nm @ '' = '' @ d # t) = Some ('' = '' @ d # t)"
    by (rule lit_match_self)
  moreover have "dropWhile py_isspace ('' = '' @ d # t) = CHR ''='' # '' '' @ d # t"
    by (simp add: space_is_space equals_not_space)
  moreover have "dropWhile py_isspace ('' '' @ d # t) = d # t"
    using assms(3) by (simp add: space_is_space digit_not_space)
  ultimately show ?thesis using assms(3) by (simp add: assigns_to_def starts_number_def)
qed

lemma update_lines_length [simp]: "length (update_lines nm v ls) = length ls"
  by (simp add: update_lines_index split: option.splits)

lemma update_all_length [simp]: "length (update_all u ls) = length ls"
  by (induction u arbitrary: ls) auto

lemma update_lines_one:
  "\<exists>k indent. update_lines nm v ls = ls[k := indent @ nm @ '' = '' @ format_value v]"
proof (cases "match_index nm ls")
  case None
  then have "update_lines nm v ls = ls[length ls := [] @ nm @ '' = '' @ format_value v]"
    by (simp add: update_lines_index list_update_beyond)
  then show ?thesis by blast
next
  case (Some i)
  then show ?thesis by (simp add: update_lines_index) blast
qed

lemma update_all_changed:
  "card {i. i < length ls \<and> update_all u ls ! i \<noteq> ls ! i} \<le> length u
   \<and> (\<forall>i < length ls. update_all u ls ! i \<noteq> ls ! i \<longrightarrow>
         (\<exists>(nm, v) \<in> set u. \<exists>indent. update_all u ls ! i = indent @ nm @ '' = '' @ format_value v))"
proof (induction u arbitrary: ls)
  case Nil
  show ?case by simp
next
  case (Cons a u)
  obtain nm v where a: "a = (nm, v)" by (cases a)
  from update_lines_one [of nm v ls] obtain k indent
    where one: "update_lines nm v ls = ls[k := indent @ nm @ '' = '' @ format_value v]"
    by blast
  let ?ls1 = "update_lines nm v ls"
  let ?fin = "update_all u ?ls1"
  let ?C1 = "{i. i < length ?ls1 \<and> ?fin ! i \<noteq> ?ls1 ! i}"
  let ?C = "{i. i < length ls \<and> ?fin ! i \<noteq> ls ! i}"
  have fin: "finite ?C1" by simp
  have sub: "?C \<subseteq> insert k ?C1"
  proof
    fix i assume "i \<in> ?C"
    then have i: "i < length ls" "?fin ! i \<noteq> ls ! i" by simp_all
    show "i \<in> insert k ?C1"
    proof (cases "i = k")
      case True
      then show ?thesis by simp
    next
      case False
      with one have "?ls1 ! i = ls ! i" by simp
      with i show ?thesis by simp
    qed
  qed
  have "card ?C \<le> card (insert k ?C1)"
    using sub fin by (intro card_mono) simp_all
  also have "\<dots> \<le> Suc (card ?C1)" using fin by (simp add: card_insert_if)
  also have "\<dots> \<le> Suc (length u)" using Cons.IH [of ?ls1] by simp
  finally have c: "card ?C \<le> length (a # u)" by simp
  have f: "\<exists>(nm', v') \<in> set (a # u). \<exists>ind. ?fin ! i = ind @ nm' @ '' = '' @ format_value v'"
    if i: "i < length ls" "?fin ! i \<noteq> ls ! i" for i
  proof (cases "?fin ! i = ?ls1 ! i")
    case False
    with i(1) Cons.IH [of ?ls1] show ?thesis by auto
  next
    case True
    with i have ne: "?ls1 ! i \<noteq> ls ! i" by simp
    with one have "i = k" by (metis nth_list_update_neq)
    with one i(1) True have "?fin ! i = indent @ nm @ '' = '' @ format_value v" by simp
    with a show ?thesis by auto
  qed
  from c f show ?case unfolding a by simp
qed

lemma update_all_not_found:
  "\<forall>(nm, v) \<in> set u. \<forall>l \<in> set ls. re_match (update_pattern nm) l = None
     \<Longrightarrow> update_all u ls = ls"
proof (induction u arbitrary: ls)
  case Nil
  show ?case by simp
next
  case (Cons a u)
  obtain nm v where a: "a = (nm, v)" by (cases a)
  with Cons.prems have "match_index nm ls = None" by (auto simp: match_index_None)
  then have "update_lines nm v ls = ls" by (simp add: update_lines_index)
  with Cons a show ?case by simp
qed

lemma update_one_plain:
  assumes "plain_name nm" and "i < length ls" and "assigns_to nm (ls ! i)"
    and "\<forall>j < i. \<not> assigns_to nm (ls ! j)"
  shows "match_index nm ls = Some i
       \<and> update_lines nm v ls
           = ls[i := takeWhile py_isspace (ls ! i) @ nm @ '' = '' @ format_value v]"
proof -
  from assms have m: "match_index nm ls = Some i"
    by (simp add: match_index_Some re_match_update_iff [symmetric])
  from assms(1,3) obtain G where G: "re_match (update_pattern nm) (ls ! i) = Some G"
    using re_match_update_iff by fastforce
  from re_match_update_indent [OF assms(1) G] G m show ?thesis
    by (simp add: update_lines_index)
qed

lemma newline_is_space: "py_isspace CHR 0x0A"
  by (simp add: py_isspace_def code_point_def)

lemma space_not_word: "\<not> word_char CHR '' ''"
  by (simp add: word_char_def code_point_def)

lemma rewritten_token:
  assumes "\<forall>c \<in> set ws. py_isspace c" and "nm \<noteq> []" and "\<forall>c \<in> set nm. word_char c"
  shows "takeWhile py_isspace (ws @ nm @ '' = '' @ x) = ws
       \<and> token (ws @ nm @ '' = '' @ x) = nm
       \<and> after_token (ws @ nm @ '' = '' @ x) = '' = '' @ x"
proof -
  from rewritten_split [OF assms(1) word_plain [OF assms(2,3)], of "'' = '' @ x"]
  have "takeWhile py_isspace (ws @ nm @ '' = '' @ x) = ws"
    and d: "dropWhile py_isspace (ws @ nm @ '' = '' @ x) = nm @ '' = '' @ x" by simp_all
  moreover have "takeWhile word_char (nm @ '' = '' @ x) = nm"
    using assms(3) space_not_word by (simp add: takeWhile_append2)
  moreover have "dropWhile word_char (nm @ '' = '' @ x) = '' = '' @ x"
    using assms(3) space_not_word by (simp add: dropWhile_append2)
  ultimately show ?thesis by (simp add: token_def after_token_def)
qed

lemma after_name_rewritten:
  assumes "is_digit d"
  shows "after_name number (h, '' = '' @ d # t) = rm (Grp number) (h, d # t)"
proof -
  have 1: "dropWhile py_isspace ('' = '' @ d # t) = CHR ''='' # '' '' @ d # t"
    by (simp add: space_is_space equals_not_space)
  have 2: "dropWhile py_isspace ('' '' @ d # t) = d # t"
    using assms by (simp add: space_is_space digit_not_space)
  show ?thesis
    unfolding after_name_def snd_conv fst_conv 1 list.case 2 by simp
qed

text \<open>A detection pattern on a rewritten line whose value is a run of digits.\<close>

lemma rewritten_match:
  assumes "(N, M) \<in> set pattern_parts"
    and "\<forall>c \<in> set ws. py_isspace c" and "nm \<noteq> []" and "\<forall>c \<in> set nm. word_char c"
    and "ds \<noteq> []" and "\<forall>c \<in> set ds. is_digit c"
  shows "re_match (assignment N M) (ws @ nm @ '' = '' @ ds)
           = (if nm \<in> lang N then Some [ws, nm, ds] else None)"
proof -
  from pattern_parts_shape [OF assms(1)] have w: "word_regex N" and c: "consumes_some N"
    and n: "M = int_literal \<or> M = num_literal" by simp_all
  from assms(5,6) obtain d t where ds: "ds = d # t" "is_digit d" by (cases ds) auto
  have "first (after_name M ([ws, nm], '' = '' @ ds)) = Some [ws, nm, ds]"
    using first_number_digits [OF n assms(5,6), of "[ws, nm]"] ds
    by (simp only: after_name_rewritten) simp
  then show ?thesis
    by (simp only: re_match_assignment [OF w c n] rewritten_token [OF assms(2,3,4)])
qed

lemma occurs_lang:
  assumes "occurs nm line"
  shows "\<exists>(N, M) \<in> set pattern_parts. nm \<in> lang N"
proof -
  from assms obtain p indent vs where p: "p \<in> set PARAMETER_PATTERNS"
    "re_match p line = Some [indent, nm, vs]" by (auto simp: occurs_def)
  from p(1) obtain N M where NM: "(N, M) \<in> set pattern_parts" "p = assignment N M"
    by (auto simp: PARAMETER_PATTERNS_def)
  from pattern_parts_shape [OF NM(1)] have w: "word_regex N" and c: "consumes_some N"
    and n: "M = int_literal \<or> M = num_literal" by simp_all
  from pattern_match_shape [OF p, of "[]"] have "token line = nm" by auto
  moreover from p(2) have "token line \<in> lang N"
    unfolding NM(2) re_match_assignment [OF w c n] by (simp split: if_splits)
  ultimately have "nm \<in> lang N" by simp
  with NM(1) show ?thesis by blast
qed

lemma rewritten_occurs:
  assumes "occurs nm line"
    and "\<forall>c \<in> set ws. py_isspace c" and "ds \<noteq> []" and "\<forall>c \<in> set ds. is_digit c"
  shows "occurs nm (ws @ nm @ '' = '' @ ds)
       \<and> first_pattern PARAMETER_PATTERNS (ws @ nm @ '' = '' @ ds) = Some [ws, nm, ds]"
proof -
  let ?new = "ws @ nm @ '' = '' @ ds"
  from occurs_assigns [OF assms(1)] have nm: "nm \<noteq> []" "\<forall>c \<in> set nm. word_char c"
    by (simp_all add: plain_name_def)
  from occurs_lang [OF assms(1)] obtain N M where NM: "(N, M) \<in> set pattern_parts" "nm \<in> lang N"
    by auto
  have m: "re_match (assignment N M) ?new = Some [ws, nm, ds]"
    using rewritten_match [OF NM(1) assms(2) nm assms(3,4)] NM(2) by simp
  moreover have "assignment N M \<in> set PARAMETER_PATTERNS"
    using NM(1) by (force simp: PARAMETER_PATTERNS_def)
  ultimately have occ: "occurs nm ?new" by (auto simp: occurs_def)
  then obtain G where G: "first_pattern PARAMETER_PATTERNS ?new = Some G"
    by (auto simp: occurs_iff)
  from first_pattern_Some [OF G] obtain p where p: "p \<in> set PARAMETER_PATTERNS"
    "re_match p ?new = Some G" by blast
  from p(1) obtain N' M' where NM': "(N', M') \<in> set pattern_parts" "p = assignment N' M'"
    by (auto simp: PARAMETER_PATTERNS_def)
  from p(2) have "G = [ws, nm, ds]"
    unfolding NM'(2) rewritten_match [OF NM'(1) assms(2) nm assms(3,4)]
    by (simp split: if_splits)
  with occ G show ?thesis by simp
qed

lemma make_parameter_digits:
  assumes "\<forall>c \<in> set ds. is_digit c"
  shows "pvalue (make_parameter nm ds n) = PyInt (int (int_of_digits ds))"
proof -
  from assms have "CHR ''.'' \<notin> set ds" using digit_not_dot by blast
  then show ?thesis by (simp add: make_parameter_def Parameter_def)
qed

lemma match_index_exists:
  assumes "i < length ls" and "re_match (update_pattern nm) (ls ! i) \<noteq> None"
  shows "\<exists>k \<le> i. match_index nm ls = Some k"
proof -
  have mem: "ls ! i \<in> set ls" using assms(1) by (rule nth_mem)
  have "match_index nm ls \<noteq> None"
  proof
    assume "match_index nm ls = None"
    then have "\<forall>l \<in> set ls. re_match (update_pattern nm) l = None"
      by (simp only: match_index_None)
    then have "re_match (update_pattern nm) (ls ! i) = None" using mem by (rule bspec)
    with assms(2) show False by (rule notE)
  qed
  then obtain k where k: "match_index nm ls = Some k"
    by (cases "match_index nm ls") simp_all
  have "k \<le> i"
  proof (rule ccontr)
    assume "\<not> k \<le> i"
    then have "i < k" by simp
    moreover note match_index_Some [THEN iffD1, OF k]
    ultimately have "re_match (update_pattern nm) (ls ! i) = None" by simp
    with assms(2) show False by (rule notE)
  qed
  with k show ?thesis by (intro exI [of _ k]) simp
qed

text \<open>What the rewrite of a detected name does.\<close>

lemma update_detected:
  assumes "i < length ls" and "occurs nm (ls ! i)"
  shows "\<exists>k \<le> i. match_index nm ls = Some k
           \<and> (\<forall>j < k. \<not> occurs nm (ls ! j))
           \<and> ((\<forall>j < i. \<not> assigns_to nm (ls ! j)) \<longrightarrow> k = i)
           \<and> update_lines nm v ls
               = ls[k := takeWhile py_isspace (ls ! k) @ nm @ '' = '' @ format_value v]"
proof -
  from occurs_assigns [OF assms(2)] have pl: "plain_name nm" and a: "assigns_to nm (ls ! i)"
    by simp_all
  note iff = re_match_update_iff [OF pl]
  from a have "re_match (update_pattern nm) (ls ! i) \<noteq> None"
    using iff [of "ls ! i"] by blast
  from match_index_exists [OF assms(1) this] obtain k where k: "k \<le> i"
    "match_index nm ls = Some k" by blast
  from k(2) have k1: "k < length ls" and k2: "re_match (update_pattern nm) (ls ! k) \<noteq> None"
    and k3: "\<forall>j < k. re_match (update_pattern nm) (ls ! j) = None"
    using match_index_Some [of nm ls k] by blast+
  from k2 have a2: "assigns_to nm (ls ! k)" using iff [of "ls ! k"] by blast
  have a3: "\<forall>j < k. \<not> assigns_to nm (ls ! j)"
  proof (intro allI impI)
    fix j assume "j < k"
    with k3 have "re_match (update_pattern nm) (ls ! j) = None" by blast
    then show "\<not> assigns_to nm (ls ! j)" using iff [of "ls ! j"] by blast
  qed
  have no: "\<forall>j < k. \<not> occurs nm (ls ! j)"
    using a3 occurs_assigns by blast
  have same: "(\<forall>j < i. \<not> assigns_to nm (ls ! j)) \<longrightarrow> k = i"
  proof
    assume h: "\<forall>j < i. \<not> assigns_to nm (ls ! j)"
    show "k = i"
    proof (rule ccontr)
      assume "k \<noteq> i"
      with k(1) have "k < i" by simp
      with h a2 show False by blast
    qed
  qed
  from update_one_plain [OF pl k1 a2 a3, of v]
  have "update_lines nm v ls
      = ls[k := takeWhile py_isspace (ls ! k) @ nm @ '' = '' @ format_value v]" by blast
  with k no same show ?thesis by blast
qed

lemma update_plain_cases:
  assumes "plain_name nm"
  shows "update_lines nm v ls = ls
       \<or> (\<exists>k < length ls. update_lines nm v ls
              = ls[k := takeWhile py_isspace (ls ! k) @ nm @ '' = '' @ format_value v])"
proof (cases "match_index nm ls")
  case None
  then show ?thesis by (simp add: update_lines_index)
next
  case (Some k)
  note c = match_index_Some [THEN iffD1, OF Some]
  from c obtain G where G: "re_match (update_pattern nm) (ls ! k) = Some G"
    by (cases "re_match (update_pattern nm) (ls ! k)") simp_all
  from re_match_update_indent [OF assms G] G Some
  have "update_lines nm v ls
      = ls[k := takeWhile py_isspace (ls ! k) @ nm @ '' = '' @ format_value v]"
    by (simp add: update_lines_index)
  moreover from c have "k < length ls" by (rule conjunct1)
  ultimately show ?thesis by blast
qed

lemma plain_no_newline: "plain_name nm \<Longrightarrow> CHR 0x0A \<notin> set nm"
  using newline_is_space by (auto simp: plain_name_def)

lemma update_lines_no_newline:
  assumes "plain_name nm" and "\<forall>l \<in> set ls. CHR 0x0A \<notin> set l"
  shows "\<forall>l \<in> set (update_lines nm v ls). CHR 0x0A \<notin> set l"
proof -
  from update_plain_cases [OF assms(1), of v ls]
  show ?thesis
  proof
    assume "update_lines nm v ls = ls"
    with assms(2) show ?thesis by simp
  next
    assume "\<exists>k < length ls. update_lines nm v ls
              = ls[k := takeWhile py_isspace (ls ! k) @ nm @ '' = '' @ format_value v]"
    then obtain k where k: "k < length ls" and eq: "update_lines nm v ls
        = ls[k := takeWhile py_isspace (ls ! k) @ nm @ '' = '' @ format_value v]" by blast
    let ?new = "takeWhile py_isspace (ls ! k) @ nm @ '' = '' @ format_value v"
    from k assms(2) have "CHR 0x0A \<notin> set (ls ! k)" by simp
    then have "CHR 0x0A \<notin> set (takeWhile py_isspace (ls ! k))"
      by (meson set_takeWhileD)
    with plain_no_newline [OF assms(1)] format_value_no_newline [of v]
    have new: "CHR 0x0A \<notin> set ?new" by simp
    show ?thesis
    proof
      fix l assume "l \<in> set (update_lines nm v ls)"
      then have "l \<in> insert ?new (set ls)"
        unfolding eq using set_update_subset_insert by fastforce
      with new assms(2) show "CHR 0x0A \<notin> set l" by auto
    qed
  qed
qed

lemma takeWhile_all: "\<forall>c \<in> set (takeWhile P xs). P c"
  by (meson set_takeWhileD)

text \<open>Round trip, on the lines.\<close>

lemma round_trip_lines:
  assumes "p \<in> set (detect_lines ls 1 {})" and "ls \<noteq> []"
    and "0 \<le> num_val v" and "num_val v = of_int (py_int v)"
  shows "\<exists>q \<in> set (detect_lines (update_lines (name p) v ls) 1 {}).
           name q = name p \<and> pvalue q = PyInt (py_int v)"
proof -
  let ?nm = "name p"
  from detect_lines_sound [OF assms(1)] obtain i where i: "i < length ls"
    and occ: "occurs ?nm (ls ! i)" by blast
  from update_detected [OF i occ, of v] obtain k where k: "k \<le> i"
    and no: "\<forall>j < k. \<not> occurs ?nm (ls ! j)"
    and eq: "update_lines ?nm v ls
        = ls[k := takeWhile py_isspace (ls ! k) @ ?nm @ '' = '' @ format_value v]"
    by blast
  let ?ws = "takeWhile py_isspace (ls ! k)"
  let ?ds = "digits_of (nat (py_int v))"
  let ?new = "?ws @ ?nm @ '' = '' @ ?ds"
  let ?ls' = "ls[k := ?new]"
  have fv: "format_value v = ?ds"
    using format_value_integral [OF assms(4)] py_int_nonneg [OF assms(3)]
    by (simp add: str_int_nonneg)
  have ds: "?ds \<noteq> []" "\<forall>c \<in> set ?ds. is_digit c"
    using digits_of_digits [of "nat (py_int v)"] by simp_all
  have ws: "\<forall>c \<in> set ?ws. py_isspace c" by (rule takeWhile_all)
  from rewritten_occurs [OF occ ws ds]
  have new: "occurs ?nm ?new" "first_pattern PARAMETER_PATTERNS ?new = Some [?ws, ?nm, ?ds]"
    by simp_all
  from k i have kl: "k < length ?ls'" by simp
  have at: "?ls' ! k = ?new" using k i by simp
  have before: "\<forall>j < k. \<not> occurs ?nm (?ls' ! j)" using no by simp
  from detect_lines_complete [OF kl _ before, of "{}" 1] new(1) at
  obtain G where G: "first_pattern PARAMETER_PATTERNS (?ls' ! k) = Some G"
    and mem: "make_parameter ?nm (G ! 2) (1 + k) \<in> set (detect_lines ?ls' 1 {})"
    by auto
  from G at new(2) have "G = [?ws, ?nm, ?ds]" by simp
  then have "G ! 2 = ?ds" by simp
  with mem have "make_parameter ?nm ?ds (1 + k) \<in> set (detect_lines ?ls' 1 {})" by simp
  moreover have "pvalue (make_parameter ?nm ?ds (1 + k)) = PyInt (py_int v)"
    using make_parameter_digits [OF ds(2)] int_of_digits_of py_int_nonneg [OF assms(3)]
    by simp
  ultimately show ?thesis
    unfolding eq fv by (intro bexI [of _ "make_parameter ?nm ?ds (1 + k)"]) simp_all
qed

lemma update_single:
  "update_code_with_parameters code [(nm, v)] = join_lines (update_lines nm v (split_lines code))"
  by (simp add: update_code_with_parameters_def)

lemma apply_write_length [simp]: "length (apply_write w X) = length X"
  by (simp add: apply_write_def split: option.splits)

lemma fold_writes_length [simp]: "length (fold apply_write ws X) = length X"
  by (induction ws arbitrary: X) simp_all

lemma apply_write_nth:
  "j < length X \<Longrightarrow>
     apply_write w X ! j
       = (case w of None \<Rightarrow> X ! j | Some (k, t) \<Rightarrow> if k = j then t else X ! j)"
  by (auto simp: apply_write_def split: option.splits)

lemma fold_writes_nth:
  "j < length X \<Longrightarrow>
     fold apply_write ws X ! j = (case last_write ws j of None \<Rightarrow> X ! j | Some t \<Rightarrow> t)"
proof (induction ws arbitrary: X)
  case Nil
  show ?case by simp
next
  case (Cons w ws)
  from Cons.prems have j: "j < length (apply_write w X)" by simp
  have "fold apply_write (w # ws) X ! j
      = (case last_write ws j of None \<Rightarrow> apply_write w X ! j | Some t \<Rightarrow> t)"
    using Cons.IH [OF j] by simp
  then show ?case
    by (simp add: apply_write_nth [OF Cons.prems] split: option.splits)
qed

lemma fold_writes_idem:
  "fold apply_write ws (fold apply_write ws X) = fold apply_write ws X"
proof (rule nth_equalityI)
  show "length (fold apply_write ws (fold apply_write ws X)) = length (fold apply_write ws X)"
    by simp
next
  fix j assume "j < length (fold apply_write ws (fold apply_write ws X))"
  then have j: "j < length X" by simp
  then have j': "j < length (fold apply_write ws X)" by simp
  show "fold apply_write ws (fold apply_write ws X) ! j = fold apply_write ws X ! j"
    by (simp add: fold_writes_nth [OF j'] fold_writes_nth [OF j] split: option.splits)
qed

lemma lit_match_lower: "lower a = lower b \<Longrightarrow> lit_match a s = lit_match b s"
proof -
  assume eq: "lower a = lower b"
  have iff: "lit_match a s = Some t \<longleftrightarrow> lit_match b s = Some t" for t
    by (simp only: lit_match_iff eq)
  show ?thesis
  proof (cases "lit_match a s")
    case (Some t)
    with iff [of t] show ?thesis by simp
  next
    case None
    show ?thesis
    proof (cases "lit_match b s")
      case None
      with \<open>lit_match a s = None\<close> show ?thesis by simp
    next
      case (Some t)
      with iff [of t] \<open>lit_match a s = None\<close> show ?thesis by simp
    qed
  qed
qed

lemma assigns_to_alt:
  "assigns_to nm l \<longleftrightarrow>
     (\<exists>r1 r2. lit_match nm (dropWhile py_isspace l) = Some r1
        \<and> dropWhile py_isspace r1 = CHR ''='' # r2
        \<and> starts_number (dropWhile py_isspace r2))"
  unfolding assigns_to_def case_list_ex
  by (cases "lit_match nm (dropWhile py_isspace l)") simp_all

lemma append_split_cases:
  "u @ c # r = u' @ c' # r' \<Longrightarrow> u = u' \<or> (\<exists>x. u' = u @ c # x) \<or> (\<exists>x. u = u' @ c' # x)"
proof (induction u arbitrary: u')
  case Nil
  then show ?case by (cases u') simp_all
next
  case (Cons a u)
  show ?case
  proof (cases u')
    case Nil
    with Cons.prems show ?thesis by simp
  next
    case (Cons b y)
    with Cons.prems have "a = b" "u @ c # r = y @ c' # r'" by simp_all
    with Cons.IH [of y] Cons show ?thesis by simp
  qed
qed

lemma assigns_to_parts:
  assumes "assigns_to nm l"
  shows "\<exists>u c r. dropWhile py_isspace l = u @ c # r \<and> lower u = lower nm
           \<and> (py_isspace c \<or> c = CHR ''='')"
proof -
  from assms obtain r1 r2 where lm: "lit_match nm (dropWhile py_isspace l) = Some r1"
    and dw: "dropWhile py_isspace r1 = CHR ''='' # r2"
    unfolding assigns_to_alt by blast
  from lm obtain u where u: "dropWhile py_isspace l = u @ r1" "lower u = lower nm"
    unfolding lit_match_iff by blast
  from dw obtain c r where r1: "r1 = c # r" by (cases r1) simp_all
  have "py_isspace c \<or> c = CHR ''=''"
  proof (cases "py_isspace c")
    case True
    then show ?thesis by simp
  next
    case False
    with r1 dw show ?thesis by simp
  qed
  with u r1 show ?thesis by blast
qed

lemma lower_plain_chars:
  assumes "plain_name nm" and "lower u = lower nm" and "c \<in> set u"
  shows "\<not> py_isspace c \<and> c \<noteq> CHR ''=''"
proof -
  from assms(3) obtain i where i: "i < length u" "u ! i = c" by (auto simp: in_set_conv_nth)
  from lower_eq_nth [OF assms(2)] i have len: "i < length nm"
    and eq: "py_lower c = py_lower (nm ! i)" by auto
  from len assms(1) have "\<not> py_isspace (nm ! i) \<and> nm ! i \<noteq> CHR ''=''"
    by (simp add: plain_name_def)
  with lower_space [OF eq] lower_equals [OF eq] show ?thesis by simp
qed

lemma assigns_to_same_name:
  assumes "plain_name nm" and "plain_name nm'" and "assigns_to nm l" and "assigns_to nm' l"
  shows "lower nm' = lower nm"
proof -
  from assigns_to_parts [OF assms(3)] obtain u c r
    where u: "dropWhile py_isspace l = u @ c # r" "lower u = lower nm"
      "py_isspace c \<or> c = CHR ''=''" by blast
  from assigns_to_parts [OF assms(4)] obtain u' c' r'
    where u': "dropWhile py_isspace l = u' @ c' # r'" "lower u' = lower nm'"
      "py_isspace c' \<or> c' = CHR ''=''" by blast
  have "u = u'"
  proof (rule ccontr)
    assume ne: "u \<noteq> u'"
    from u(1) u'(1) have e: "u @ c # r = u' @ c' # r'" by simp
    from append_split_cases [OF e] ne
    consider x where "u' = u @ c # x" | x where "u = u' @ c' # x"
      by blast
    then show False
    proof cases
      case 1
      then have "c \<in> set u'" by simp
      from lower_plain_chars [OF assms(2) u'(2) this] u(3) show False by simp
    next
      case 2
      then have "c' \<in> set u" by simp
      from lower_plain_chars [OF assms(1) u(2) this] u'(3) show False by simp
    qed
  qed
  with u(2) u'(2) show ?thesis by simp
qed

lemma assigns_to_lower:
  assumes "lower nm' = lower nm"
  shows "assigns_to nm' l = assigns_to nm l"
  unfolding assigns_to_def by (simp only: lit_match_lower [OF assms])

lemma assigns_to_iff_name:
  assumes "plain_name nm" and "plain_name nm'" and "assigns_to nm l"
  shows "assigns_to nm' l \<longleftrightarrow> lower nm' = lower nm"
  using assms assigns_to_same_name assigns_to_lower by blast

lemma same_shape_refl: "same_shape L L"
  by (simp add: same_shape_def)

lemma same_shape_trans: "same_shape L X \<Longrightarrow> same_shape X Y \<Longrightarrow> same_shape L Y"
  by (simp add: same_shape_def)

lemma match_index_cong:
  assumes "length X = length L"
    and "\<forall>j < length L. (re_match (update_pattern nm) (X ! j) \<noteq> None)
                          = (re_match (update_pattern nm) (L ! j) \<noteq> None)"
  shows "match_index nm X = match_index nm L"
  using assms
proof (induction L arbitrary: X)
  case Nil
  then show ?case by simp
next
  case (Cons l L)
  from Cons.prems(1) obtain x X' where X: "X = x # X'" "length X' = length L"
    by (cases X) simp_all
  from Cons.prems(2) [THEN spec, of 0] X
  have h: "(re_match (update_pattern nm) x \<noteq> None) = (re_match (update_pattern nm) l \<noteq> None)"
    by simp
  have "\<forall>j < length L. (re_match (update_pattern nm) (X' ! j) \<noteq> None)
                          = (re_match (update_pattern nm) (L ! j) \<noteq> None)"
  proof (intro allI impI)
    fix j assume "j < length L"
    then have "Suc j < length (l # L)" by simp
    with Cons.prems(2) [THEN spec, of "Suc j"] X
    show "(re_match (update_pattern nm) (X' ! j) \<noteq> None)
        = (re_match (update_pattern nm) (L ! j) \<noteq> None)" by simp
  qed
  from Cons.IH [OF X(2) this] h X show ?case by simp
qed

lemma same_shape_match_index:
  assumes "same_shape L X" and "plain_name nm"
  shows "match_index nm X = match_index nm L"
proof (rule match_index_cong)
  show "length X = length L" using assms(1) by (simp add: same_shape_def)
next
  show "\<forall>j < length L. (re_match (update_pattern nm) (X ! j) \<noteq> None)
                          = (re_match (update_pattern nm) (L ! j) \<noteq> None)"
  proof (intro allI impI)
    fix j assume "j < length L"
    with assms(1) have "assigns_to nm (X ! j) = assigns_to nm (L ! j)"
      using assms(2) by (simp add: same_shape_def)
    then show "(re_match (update_pattern nm) (X ! j) \<noteq> None)
        = (re_match (update_pattern nm) (L ! j) \<noteq> None)"
      by (simp only: re_match_update_iff [OF assms(2)])
  qed
qed

lemma same_shape_update:
  assumes "same_shape L X" and "plain_name nm"
  shows "update_lines nm v X = apply_write (the_write L (nm, v)) X"
proof (cases "match_index nm L")
  case None
  with same_shape_match_index [OF assms] show ?thesis
    by (simp add: update_lines_index the_write_def apply_write_def)
next
  case (Some k)
  with same_shape_match_index [OF assms] have mx: "match_index nm X = Some k" by simp
  note c = match_index_Some [THEN iffD1, OF mx]
  from c have k: "k < length X" by (rule conjunct1)
  from c obtain G where G: "re_match (update_pattern nm) (X ! k) = Some G"
    by (cases "re_match (update_pattern nm) (X ! k)") simp_all
  from assms(1) k have "takeWhile py_isspace (X ! k) = takeWhile py_isspace (L ! k)"
    by (simp add: same_shape_def)
  with re_match_update_indent [OF assms(2) G] have "hd G = takeWhile py_isspace (L ! k)"
    by simp
  with G mx Some show ?thesis
    by (simp add: update_lines_index the_write_def apply_write_def)
qed

lemma update_lines_shape:
  assumes "plain_name nm" and "0 \<le> num_val v"
  shows "same_shape L (update_lines nm v L)"
proof (cases "match_index nm L")
  case None
  then show ?thesis by (simp add: update_lines_index same_shape_refl)
next
  case (Some k)
  note iff = re_match_update_iff [OF assms(1)]
  note c = match_index_Some [THEN iffD1, OF Some]
  from c have k: "k < length L" by (rule conjunct1)
  from c have "re_match (update_pattern nm) (L ! k) \<noteq> None" by simp
  then have a: "assigns_to nm (L ! k)" using iff [of "L ! k"] by blast
  from c obtain G where G: "re_match (update_pattern nm) (L ! k) = Some G"
    by (cases "re_match (update_pattern nm) (L ! k)") simp_all
  let ?ws = "takeWhile py_isspace (L ! k)"
  from format_value_digit [OF assms(2)] obtain d t where fv: "format_value v = d # t"
    "is_digit d" by blast
  let ?new = "?ws @ nm @ '' = '' @ d # t"
  have eq: "update_lines nm v L = L[k := ?new]"
    using re_match_update_indent [OF assms(1) G] G Some fv(1)
    by (simp add: update_lines_index)
  have ws: "\<forall>c \<in> set ?ws. py_isspace c" by (rule takeWhile_all)
  have t: "takeWhile py_isspace ?new = ?ws"
    using rewritten_split [OF ws assms(1), of "'' = '' @ d # t"] by simp
  have n: "assigns_to nm ?new" using rewritten_assigns [OF ws assms(1) fv(2)] .
  have s: "assigns_to nm' ?new = assigns_to nm' (L ! k)" if "plain_name nm'" for nm'
    using assigns_to_iff_name [OF assms(1) that n] assigns_to_iff_name [OF assms(1) that a]
    by simp
  show ?thesis
    unfolding eq same_shape_def
  proof (intro conjI allI impI)
    show "length (L[k := ?new]) = length L" by simp
  next
    fix j assume "j < length L"
    show "takeWhile py_isspace (L[k := ?new] ! j) = takeWhile py_isspace (L ! j)"
      using k t by (cases "j = k") simp_all
  next
    fix j nm' assume "j < length L" and "plain_name nm'"
    then show "assigns_to nm' (L[k := ?new] ! j) = assigns_to nm' (L ! j)"
      using k s by (cases "j = k") simp_all
  qed
qed

lemma update_all_writes:
  assumes "\<forall>(nm, v) \<in> set u. plain_name nm \<and> 0 \<le> num_val v" and "same_shape L X"
  shows "update_all u X = fold apply_write (map (the_write L) u) X
       \<and> same_shape L (update_all u X)"
  using assms
proof (induction u arbitrary: X)
  case Nil
  then show ?case by simp
next
  case (Cons e u)
  obtain nm v where e: "e = (nm, v)" by (cases e)
  with Cons.prems(1) have pl: "plain_name nm" and nn: "0 \<le> num_val v"
    and rest: "\<forall>(nm, v) \<in> set u. plain_name nm \<and> 0 \<le> num_val v" by simp_all
  have w: "update_lines nm v X = apply_write (the_write L (nm, v)) X"
    using same_shape_update [OF Cons.prems(2) pl] .
  have "same_shape X (update_lines nm v X)" using update_lines_shape [OF pl nn] .
  with Cons.prems(2) have sh: "same_shape L (update_lines nm v X)"
    by (rule same_shape_trans)
  note ih = Cons.IH [OF rest sh]
  from ih have a: "update_all u (update_lines nm v X)
      = fold apply_write (map (the_write L) u) (update_lines nm v X)" by (rule conjunct1)
  from ih have b: "same_shape L (update_all u (update_lines nm v X))" by (rule conjunct2)
  have "update_all (e # u) X = update_all u (update_lines nm v X)" by (simp add: e)
  moreover have "fold apply_write (map (the_write L) (e # u)) X
      = fold apply_write (map (the_write L) u) (update_lines nm v X)"
    by (simp add: e w)
  ultimately show ?case using a b by (simp only:)
qed

lemma update_all_idem:
  assumes "\<forall>(nm, v) \<in> set u. plain_name nm \<and> 0 \<le> num_val v"
  shows "update_all u (update_all u L) = update_all u L"
proof -
  let ?W = "map (the_write L) u"
  note r = update_all_writes [OF assms same_shape_refl [of L]]
  from r have 1: "update_all u L = fold apply_write ?W L" by (rule conjunct1)
  from r have sh: "same_shape L (update_all u L)" by (rule conjunct2)
  from update_all_writes [OF assms sh]
  have "update_all u (update_all u L) = fold apply_write ?W (update_all u L)"
    by (rule conjunct1)
  then show ?thesis by (simp only: 1 fold_writes_idem)
qed

lemma update_all_no_newline:
  assumes "\<forall>(nm, v) \<in> set u. plain_name nm" and "\<forall>l \<in> set ls. CHR 0x0A \<notin> set l"
  shows "\<forall>l \<in> set (update_all u ls). CHR 0x0A \<notin> set l"
  using assms
proof (induction u arbitrary: ls)
  case Nil
  then show ?case by simp
next
  case (Cons e u)
  obtain nm v where e: "e = (nm, v)" by (cases e)
  with Cons.prems(1) have pl: "plain_name nm" and rest: "\<forall>(nm, v) \<in> set u. plain_name nm"
    by simp_all
  from update_lines_no_newline [OF pl Cons.prems(2)]
  have "\<forall>l \<in> set (update_lines nm v ls). CHR 0x0A \<notin> set l" .
  from Cons.IH [OF rest this] show ?case by (simp add: e)
qed

lemma minus_not_space: "\<not> py_isspace CHR ''-''"
  by (simp add: py_isspace_def code_point_def)

lemma minus_not_digit: "\<not> is_digit CHR ''-''"
  by (simp add: is_digit_def code_point_def)

lemma rewritten_neg_not_assigns:
  assumes "\<forall>c \<in> set ws. py_isspace c" and "plain_name nm"
  shows "\<not> assigns_to nm (ws @ nm @ '' = '' @ CHR ''-'' # t)"
proof -
  have "dropWhile py_isspace (ws @ nm @ '' = '' @ CHR ''-'' # t) = nm @ '' = '' @ CHR ''-'' # t"
    using rewritten_split [OF assms(1,2)] by simp
  moreover have "lit_match nm (nm @ '' = '' @ CHR ''-'' # t) = Some ('' = '' @ CHR ''-'' # t)"
    by (rule lit_match_self)
  moreover have "dropWhile py_isspace ('' = '' @ CHR ''-'' # t) = CHR ''='' # '' '' @ CHR ''-'' # t"
    by (simp add: space_is_space equals_not_space)
  moreover have "dropWhile py_isspace ('' '' @ CHR ''-'' # t) = CHR ''-'' # t"
    by (simp add: space_is_space minus_not_space)
  ultimately show ?thesis by (simp add: assigns_to_def starts_number_def minus_not_digit)
qed

lemma format_value_neg:
  assumes "num_val v < 0"
  shows "\<exists>t. format_value v = CHR ''-'' # t"
proof (cases v)
  case (PyInt i)
  with assms show ?thesis by (simp add: format_value_def str_int_def)
next
  case (PyFloat x)
  with assms have x: "x < 0" by simp
  show ?thesis
  proof (cases "x = of_int \<lceil>x\<rceil>")
    case True
    with x have "\<lceil>x\<rceil> < 0" by linarith
    with True x PyFloat show ?thesis by (simp add: format_value_def str_int_def)
  next
    case False
    obtain s where s: "format_6f x = CHR ''-'' # s"
      using x by (simp add: format_6f_def Let_def)
    have "\<exists>c \<in> set (CHR ''-'' # s). c \<noteq> CHR ''0''" by simp
    from rstrip_keeps_hd [OF refl this] obtain t1 where
      t1: "rstrip CHR ''0'' (CHR ''-'' # s) = CHR ''-'' # t1" by blast
    have "\<exists>c \<in> set (CHR ''-'' # t1). c \<noteq> CHR ''.''" by simp
    from rstrip_keeps_hd [OF refl this] obtain t2 where
      "rstrip CHR ''.'' (CHR ''-'' # t1) = CHR ''-'' # t2" by blast
    with t1 s False x PyFloat show ?thesis by (simp add: format_value_def)
  qed
qed

lemma filter_two:
  assumes "i < j" and "j < length L" and "P (L ! i)" and "P (L ! j)"
  shows "2 \<le> length (filter P L)"
proof -
  have L: "L = take j L @ L ! j # drop (Suc j) L" using assms(2) by (rule id_take_nth_drop)
  have "L ! i \<in> set (take j L)"
    using assms(1,2) by (metis in_set_conv_nth length_take min.absorb2 nth_take less_or_eq_imp_le)
  with assms(3) have "filter P (take j L) \<noteq> []" by (auto simp: filter_empty_conv)
  then have 1: "1 \<le> length (filter P (take j L))" by (cases "filter P (take j L)") simp_all
  have "length (filter P L)
      = length (filter P (take j L)) + length (filter P (L ! j # drop (Suc j) L))"
    by (subst L) simp
  with 1 assms(4) show ?thesis by simp
qed

lemma filter_one:
  assumes "i < length L" and "\<forall>j < length L. j \<noteq> i \<longrightarrow> \<not> P (L ! j)"
  shows "length (filter P L) \<le> 1"
proof -
  have L: "L = take i L @ L ! i # drop (Suc i) L" using assms(1) by (rule id_take_nth_drop)
  have a: "filter P (take i L) = []"
  proof -
    have "\<not> P x" if "x \<in> set (take i L)" for x
    proof -
      from that obtain j where "j < length (take i L)" "take i L ! j = x"
        by (auto simp: in_set_conv_nth)
      then have "j < i" "j < length L" "L ! j = x" using assms(1) by simp_all
      with assms(2) show ?thesis by auto
    qed
    then show ?thesis by (simp add: filter_empty_conv)
  qed
  have b: "filter P (drop (Suc i) L) = []"
  proof -
    have "\<not> P x" if "x \<in> set (drop (Suc i) L)" for x
    proof -
      from that obtain j where j: "j < length (drop (Suc i) L)" "drop (Suc i) L ! j = x"
        by (auto simp: in_set_conv_nth)
      then have "Suc i + j < length L" "L ! (Suc i + j) = x" by simp_all
      with assms(2) show ?thesis by auto
    qed
    then show ?thesis by (simp add: filter_empty_conv)
  qed
  have "length (filter P L)
      = length (filter P (take i L)) + length (filter P (L ! i # drop (Suc i) L))"
    by (subst L) simp
  with a b show ?thesis by simp
qed

lemma update_lines_none:
  assumes "plain_name nm" and "\<forall>j < length L. \<not> assigns_to nm (L ! j)"
  shows "update_lines nm v L = L"
proof -
  have "\<forall>l \<in> set L. re_match (update_pattern nm) l = None"
  proof
    fix l assume "l \<in> set L"
    then obtain j where "j < length L" "L ! j = l" by (auto simp: in_set_conv_nth)
    with assms(2) have "\<not> assigns_to nm l" by auto
    then show "re_match (update_pattern nm) l = None"
      using re_match_update_iff [OF assms(1), of l] by blast
  qed
  then have "match_index nm L = None" by (simp only: match_index_None)
  then show ?thesis by (simp add: update_lines_index)
qed

lemma first_assigning:
  assumes "j < length L" and "assigns_to nm (L ! j)"
  obtains i where "i \<le> j" "assigns_to nm (L ! i)" "\<forall>k < i. \<not> assigns_to nm (L ! k)"
proof -
  let ?i = "LEAST i. assigns_to nm (L ! i)"
  have 1: "assigns_to nm (L ! ?i)" using assms(2) by (rule LeastI)
  have 2: "?i \<le> j" using assms(2) by (rule Least_le)
  have 3: "\<forall>k < ?i. \<not> assigns_to nm (L ! k)" using not_less_Least by blast
  from 1 2 3 that show thesis by blast
qed

lemma update_lines_neg_twice:
  assumes "plain_name nm" and "num_val v < 0"
  shows "update_lines nm v (update_lines nm v L) = update_lines nm v L
           \<longleftrightarrow> length (filter (assigns_to nm) L) \<le> 1"
proof (cases "\<exists>j < length L. assigns_to nm (L ! j)")
  case False
  then have no: "\<forall>j < length L. \<not> assigns_to nm (L ! j)" by blast
  then have "filter (assigns_to nm) L = []"
    by (auto simp: filter_empty_conv in_set_conv_nth)
  moreover have "update_lines nm v L = L" using assms(1) no by (rule update_lines_none)
  ultimately show ?thesis by simp
next
  case True
  then obtain j0 where "j0 < length L" "assigns_to nm (L ! j0)" by blast
  then obtain i where i: "i < length L" "assigns_to nm (L ! i)"
    "\<forall>k < i. \<not> assigns_to nm (L ! k)"
    using first_assigning [of j0 L nm] by (metis le_less_trans)
  from format_value_neg [OF assms(2)] obtain t where t: "format_value v = CHR ''-'' # t" ..
  define w where "w = takeWhile py_isspace (L ! i) @ nm @ '' = '' @ format_value v"
  have ws: "\<forall>c \<in> set (takeWhile py_isspace (L ! i)). py_isspace c" by (rule takeWhile_all)
  have w: "\<not> assigns_to nm w"
    unfolding w_def t using ws assms(1) by (rule rewritten_neg_not_assigns)
  have L1: "update_lines nm v L = L[i := w]"
    unfolding w_def using update_one_plain [OF assms(1) i, of v] by blast
  show ?thesis
  proof (cases "\<exists>j < length L. j \<noteq> i \<and> assigns_to nm (L ! j)")
    case False
    then have only: "\<forall>j < length L. j \<noteq> i \<longrightarrow> \<not> assigns_to nm (L ! j)" by blast
    have "\<forall>j < length (L[i := w]). \<not> assigns_to nm (L[i := w] ! j)"
    proof (intro allI impI)
      fix j assume "j < length (L[i := w])"
      then have j: "j < length L" by simp
      show "\<not> assigns_to nm (L[i := w] ! j)"
      proof (cases "j = i")
        case True
        with i(1) w show ?thesis by simp
      next
        case False
        with only j show ?thesis by simp
      qed
    qed
    with assms(1) have "update_lines nm v (L[i := w]) = L[i := w]" by (rule update_lines_none)
    moreover have "length (filter (assigns_to nm) L) \<le> 1" using i(1) only by (rule filter_one)
    ultimately show ?thesis by (simp add: L1)
  next
    case True
    then obtain j where j: "j < length L" "j \<noteq> i" "assigns_to nm (L ! j)" by blast
    with i(3) have ij: "i < j" by (metis linorder_neqE_nat)
    from filter_two [OF ij j(1) i(2) j(3)]
    have many: "\<not> length (filter (assigns_to nm) L) \<le> 1" by simp
    let ?L1 = "L[i := w]"
    have "j < length ?L1" "assigns_to nm (?L1 ! j)" using j by simp_all
    then obtain k where k: "k \<le> j" "assigns_to nm (?L1 ! k)"
      "\<forall>m < k. \<not> assigns_to nm (?L1 ! m)"
      using first_assigning [of j ?L1 nm] by blast
    from k(1) j(1) have kl: "k < length ?L1" by simp
    from format_value_neg [OF assms(2)] have "\<exists>t. format_value v = CHR ''-'' # t" .
    define w' where "w' = takeWhile py_isspace (?L1 ! k) @ nm @ '' = '' @ format_value v"
    have ws': "\<forall>c \<in> set (takeWhile py_isspace (?L1 ! k)). py_isspace c" by (rule takeWhile_all)
    have nw: "\<not> assigns_to nm w'"
      unfolding w'_def t using ws' assms(1) by (rule rewritten_neg_not_assigns)
    have L2: "update_lines nm v ?L1 = ?L1[k := w']"
      unfolding w'_def using update_one_plain [OF assms(1) kl k(2,3), of v] by blast
    from nw k(2) have "w' \<noteq> ?L1 ! k" by auto
    with kl have "?L1[k := w'] \<noteq> ?L1" by (metis nth_list_update_eq)
    with L1 L2 many show ?thesis by simp
  qed
qed

lemma join_lines_inj:
  assumes "X \<noteq> []" "Y \<noteq> []" "\<forall>l \<in> set X. CHR 0x0A \<notin> set l" "\<forall>l \<in> set Y. CHR 0x0A \<notin> set l"
    and "join_lines X = join_lines Y"
  shows "X = Y"
proof -
  have "X = split_lines (join_lines X)" by (rule split_join [OF assms(1,3), symmetric])
  also have "\<dots> = split_lines (join_lines Y)" by (simp only: assms(5))
  also have "\<dots> = Y" by (rule split_join [OF assms(2,4)])
  finally show ?thesis .
qed

lemma update_lines_ok:
  assumes "plain_name nm"
  shows "update_lines nm v (split_lines code) \<noteq> []
       \<and> (\<forall>l \<in> set (update_lines nm v (split_lines code)). CHR 0x0A \<notin> set l)
       \<and> split_lines (join_lines (update_lines nm v (split_lines code)))
           = update_lines nm v (split_lines code)"
proof -
  let ?L1 = "update_lines nm v (split_lines code)"
  have "\<forall>l \<in> set (split_lines code). CHR 0x0A \<notin> set l" using split_lines_no_newline by blast
  from update_lines_no_newline [OF assms this] have nn: "\<forall>l \<in> set ?L1. CHR 0x0A \<notin> set l" .
  have "length ?L1 = length (split_lines code)" by simp
  with split_lines_nonempty [of code] have ne: "?L1 \<noteq> []" by (metis length_0_conv)
  from ne nn split_join [OF ne nn] show ?thesis by blast
qed

lemma update_neg_twice:
  assumes "plain_name nm" and "num_val v < 0"
  shows "update_code_with_parameters (update_code_with_parameters code [(nm, v)]) [(nm, v)]
           = update_code_with_parameters code [(nm, v)]
         \<longleftrightarrow> length (filter (assigns_to nm) (split_lines code)) \<le> 1"
proof -
  let ?L = "split_lines code"
  let ?L1 = "update_lines nm v ?L"
  let ?L2 = "update_lines nm v ?L1"
  note ok = update_lines_ok [OF assms(1), of v code]
  from ok have ne1: "?L1 \<noteq> []" by (rule conjunct1)
  from ok have nn1: "\<forall>l \<in> set ?L1. CHR 0x0A \<notin> set l" by (rule conjunct2 [THEN conjunct1])
  from ok have sj: "split_lines (join_lines ?L1) = ?L1" by (rule conjunct2 [THEN conjunct2])
  have 1: "update_code_with_parameters code [(nm, v)] = join_lines ?L1" by (rule update_single)
  have 2: "update_code_with_parameters (join_lines ?L1) [(nm, v)] = join_lines ?L2"
    unfolding update_single sj ..
  have nn2: "\<forall>l \<in> set ?L2. CHR 0x0A \<notin> set l"
    using assms(1) nn1 by (rule update_lines_no_newline)
  have "length ?L2 = length ?L1" by (rule update_lines_length)
  with ne1 have ne2: "?L2 \<noteq> []" by (metis length_0_conv)
  have iff: "join_lines ?L2 = join_lines ?L1 \<longleftrightarrow> ?L2 = ?L1"
  proof
    assume "join_lines ?L2 = join_lines ?L1"
    with ne2 ne1 nn2 nn1 show "?L2 = ?L1" by (rule join_lines_inj)
  next
    assume "?L2 = ?L1"
    then show "join_lines ?L2 = join_lines ?L1" by (simp only:)
  qed
  show ?thesis
    unfolding 1 2 iff using assms by (rule update_lines_neg_twice)
qed

lemma update_compose:
  assumes "plain_name nm"
  shows "update_code_with_parameters code ((nm, v) # u)
           = update_code_with_parameters (update_code_with_parameters code [(nm, v)]) u"
  using update_lines_ok [OF assms, of v code]
  by (simp add: update_code_with_parameters_def)




text \<open>Sample scripts and rewrites, evaluated.\<close>

lemma detect_k_1:
  "detect_parameters ''k = 1'' =
     [\<lparr>name = ''k'', pvalue = PyInt 1, line_number = 1, original_text = ''k = 1'',
       param_type = ''int'', min_value = PyInt 0, max_value = PyInt 101, step = PyInt 1\<rparr>]"
  by code_simp

lemma detect_k_7:
  "detect_parameters ''k = 7'' =
     [\<lparr>name = ''k'', pvalue = PyInt 7, line_number = 1, original_text = ''k = 7'',
       param_type = ''int'', min_value = PyInt 0, max_value = PyInt 107, step = PyInt 1\<rparr>]"
  by code_simp

lemma update_k_float_7:
  "update_code_with_parameters ''k = 1'' [(''k'', PyFloat 7)] = ''k = 7''"
  by code_simp


lemma update_k_twice:
  "update_code_with_parameters ''k = 1\<newline>k = 2'' [(''k'', PyInt 5)] = ''k = 5\<newline>k = 2''"
  by code_simp

lemma update_k_neg:
  "update_code_with_parameters ''k = 1'' [(''k'', PyInt (- 5))] = ''k = -5''"
  by code_simp

lemma split_k_1: "split_lines ''k = 1'' = [''k = 1'']"
  by code_simp

lemma split_k_twice: "split_lines ''k = 1\<newline>k = 2'' = [''k = 1'', ''k = 2'']"
  by code_simp

lemma split_a_k: "split_lines ''a = 1\<newline>k = 2'' = [''a = 1'', ''k = 2'']"
  by code_simp

lemma plain_name_k: "plain_name ''k''"
  by code_simp

lemma convertible_small: "convertible (PyInt 5)" "convertible (PyInt (- 5))" "convertible (PyFloat 7)"
  by (simp_all add: convertible_def)

lemma short_lines_samples:
  "short_lines ''k = 1''" "short_lines ''k = 1\<newline>k = 2''"
  by (simp_all add: short_lines_def split_k_1 split_k_twice)

lemma format_2_5: "format_value (PyFloat (5 / 2)) = ''2.5''"
proof -
  have r: "round_half_even (\<bar>5 / 2\<bar> * 1000000) = 2500000"
    by (simp add: round_half_even_def)
  have c: "char_of (50 :: nat) = CHR ''2''" "char_of (53 :: nat) = CHR ''5''"
    "char_of (48 :: nat) = CHR ''0''" by code_simp+
  have d1: "digits_of 2 = ''2''" by (simp add: digits_of.simps c)
  have d2: "digits_of 500000 = ''500000''" by (simp add: digits_of.simps c)
  have f: "format_6f (5 / 2) = ''2.500000''"
    unfolding format_6f_def r by (simp add: d1 d2 pad6_def)
  have fl: "\<lfloor>5 / 2 :: rat\<rfloor> = 2" by (simp add: floor_eq_iff)
  show ?thesis
    unfolding format_value_def by (simp add: f rstrip_def fl)
qed

lemma update_n_a:
  "update_code_with_parameters ''n_a = 3'' [(''n_a'', PyFloat (5 / 2))] = ''n_a = 2.5''"
proof -
  have pl: "plain_name ''n_a''" by code_simp
  have s: "split_lines ''n_a = 3'' = [''n_a = 3'']" by code_simp
  have a: "assigns_to ''n_a'' ''n_a = 3''" by code_simp
  have tw: "takeWhile py_isspace ''n_a = 3'' = []" by code_simp
  from update_one_plain [of "''n_a''" 0 "[''n_a = 3'']" "PyFloat (5 / 2)"] pl a
  have "update_lines ''n_a'' (PyFloat (5 / 2)) [''n_a = 3'']
          = [takeWhile py_isspace ''n_a = 3'' @ ''n_a'' @ '' = '' @ format_value (PyFloat (5 / 2))]"
    by simp
  then show ?thesis unfolding update_single s tw format_2_5 by simp
qed

text \<open>
  C4, as the claim states it, fails. The patterns take no sign: the rewrite of \<open>k = 1\<close>
  with \<open>{k: -5}\<close> gives \<open>k = -5\<close>, in which \<open>detect_parameters\<close> finds no parameter. And a
  pattern for whole numbers takes the digits before the dot: the rewrite of \<open>n_a = 3\<close>
  with \<open>{n_a: 2.5}\<close> gives \<open>n_a = 2.5\<close>, in which the parameter \<open>n_a\<close> has the value 2.
\<close>

theorem round_trip_counterexample:
  "map name (detect_parameters ''k = 1'') = [''k'']
   \<and> update_code_with_parameters ''k = 1'' [(''k'', PyInt (- 5))] = ''k = -5''
   \<and> detect_parameters ''k = -5'' = []
   \<and> map name (detect_parameters ''n_a = 3'') = [''n_a'']
   \<and> update_code_with_parameters ''n_a = 3'' [(''n_a'', PyFloat (5 / 2))] = ''n_a = 2.5''
   \<and> map pvalue (detect_parameters ''n_a = 2.5'') = [PyInt 2]"
proof -
  have "map name (detect_parameters ''k = 1'') = [''k'']" by (simp add: detect_k_1)
  moreover have "detect_parameters ''k = -5'' = []" by code_simp
  moreover have "map name (detect_parameters ''n_a = 3'') = [''n_a'']" by code_simp
  moreover have "map pvalue (detect_parameters ''n_a = 2.5'') = [PyInt 2]" by code_simp
  ultimately show ?thesis using update_k_neg update_n_a by (simp only: simp_thms)
qed

text \<open>
  C4, amended. For every script in which \<open>detect_parameters\<close> detects a parameter named
  \<open>name\<close>, and every number \<open>v\<close> that is not negative and has no fractional part (an
  \<open>int\<close>, or a \<open>float\<close> such as \<open>7.0\<close>), running \<open>detect_parameters\<close> on the output of
  \<open>update_code_with_parameters(script, {name: v})\<close> yields a parameter named \<open>name\<close> whose
  value equals \<open>v\<close>; the lines of the script have at most 300 characters and \<open>v\<close> at most
  640 digits.
\<close>

theorem round_trip_integral:
  assumes "p \<in> set (detect_parameters code)"
    and "0 \<le> num_val v" and "num_val v = of_int (py_int v)"
    and "short_lines code" and "convertible v"
  shows "\<exists>q \<in> set (detect_parameters (update_code_with_parameters code [(name p, v)])).
           name q = name p \<and> num_val (pvalue q) = num_val v"
proof -
  let ?L = "split_lines code"
  let ?L1 = "update_lines (name p) v ?L"
  from assms(1) have mem: "p \<in> set (detect_lines ?L 1 {})"
    by (simp add: detect_parameters_def)
  from detect_lines_sound [OF mem] obtain i where "occurs (name p) (?L ! i)" by blast
  then have pl: "plain_name (name p)" using occurs_assigns by blast
  note ok = update_lines_ok [OF pl, of v code]
  have "detect_parameters (update_code_with_parameters code [(name p, v)])
      = detect_lines ?L1 1 {}"
    using ok by (simp only: update_single detect_parameters_def)
  moreover from round_trip_lines [OF mem split_lines_nonempty assms(2,3)]
  obtain q where "q \<in> set (detect_lines ?L1 1 {})" "name q = name p"
    "pvalue q = PyInt (py_int v)" by blast
  ultimately show ?thesis using assms(3) by auto
qed

theorem round_trip_integral_witness:
  "hd (detect_parameters ''k = 1'') \<in> set (detect_parameters ''k = 1'')
   \<and> 0 \<le> num_val (PyFloat 7) \<and> num_val (PyFloat 7) = of_int (py_int (PyFloat 7))
   \<and> short_lines ''k = 1'' \<and> convertible (PyFloat 7)
   \<and> update_code_with_parameters ''k = 1'' [(''k'', PyFloat 7)] = ''k = 7''
   \<and> (\<exists>q \<in> set (detect_parameters ''k = 7''). name q = ''k'' \<and> num_val (pvalue q) = 7)"
proof -
  have m: "hd (detect_parameters ''k = 1'') \<in> set (detect_parameters ''k = 1'')"
    by (simp add: detect_k_1)
  have n: "name (hd (detect_parameters ''k = 1'')) = ''k''"
    by (simp add: detect_k_1)
  have a: "0 \<le> num_val (PyFloat 7)" by simp
  have b: "num_val (PyFloat 7) = of_int (py_int (PyFloat 7))" by simp
  from round_trip_integral [OF m a b short_lines_samples(1) convertible_small(3)]
  have "\<exists>q \<in> set (detect_parameters ''k = 7''). name q = ''k'' \<and> num_val (pvalue q) = 7"
    unfolding n update_k_float_7 by simp
  with m a b update_k_float_7 short_lines_samples(1) convertible_small(3)
  show ?thesis by (simp only: simp_thms)
qed




text \<open>
  C5, as the claim states it, fails: the pattern of the rewrite is matched with
  \<open>re.IGNORECASE\<close>, and the whole line is replaced. In the script \<open>C = 1 # c\<close>,
  \<open>c = 2\<close> (one statement a line) the rewrite with \<open>{c: 5}\<close> changes the first line,
  whose target is \<open>C\<close> and not \<open>c\<close>, drops its comment, and leaves \<open>c = 2\<close> as it is.
\<close>

theorem frame_counterexample:
  "update_code_with_parameters ''C = 1 # c\<newline>c = 2'' [(''c'', PyInt 5)] = ''c = 5\<newline>c = 2''"
  by code_simp

text \<open>
  C5, amended. For every script and update mapping (of values of at most 640 digits),
  the output of \<open>update_code_with_parameters\<close> has the lines of the script except for
  at most one line per updated name, and every line that differs is some white space
  followed by an updated name, \<open> = \<close> and its formatted value. Names that no line
  matches are ignored: the script is returned as it is. For one updated name without
  white space or \<open>=\<close>: the first line that assigns a number to the name, in any case of
  its letters, is replaced by its leading white space, the name, \<open> = \<close> and the
  formatted value (whatever followed the number on that line is dropped), and every
  other line is unchanged; when no line assigns to the name the script is unchanged;
  and an update of several names is the update of the first followed by the update
  of the others on its output.
\<close>

theorem update_frame:
  assumes "\<forall>(nm, v) \<in> set u. convertible v" and "convertible v"
  shows
  "(\<exists>L'. update_code_with_parameters code u = join_lines L'
        \<and> length L' = length (split_lines code)
        \<and> card {i. i < length (split_lines code) \<and> L' ! i \<noteq> split_lines code ! i} \<le> length u
        \<and> (\<forall>i < length (split_lines code). L' ! i \<noteq> split_lines code ! i \<longrightarrow>
              (\<exists>(nm, v) \<in> set u. \<exists>indent. L' ! i = indent @ nm @ '' = '' @ format_value v)))
   \<and> ((\<forall>(nm, v) \<in> set u. \<forall>l \<in> set (split_lines code).
          re_match (update_pattern nm) l = None)
        \<longrightarrow> update_code_with_parameters code u = code)
   \<and> (plain_name nm \<and> i < length (split_lines code) \<and> assigns_to nm (split_lines code ! i)
        \<and> (\<forall>j < i. \<not> assigns_to nm (split_lines code ! j))
        \<longrightarrow> update_code_with_parameters code [(nm, v)]
              = join_lines ((split_lines code)
                  [i := takeWhile py_isspace (split_lines code ! i) @ nm @ '' = ''
                          @ format_value v]))
   \<and> (plain_name nm \<and> (\<forall>j < length (split_lines code). \<not> assigns_to nm (split_lines code ! j))
        \<longrightarrow> update_code_with_parameters code [(nm, v)] = code)
   \<and> (plain_name nm
        \<longrightarrow> update_code_with_parameters code ((nm, v) # u)
              = update_code_with_parameters (update_code_with_parameters code [(nm, v)]) u)"
proof (intro conjI impI)
  let ?L = "split_lines code"
  show "\<exists>L'. update_code_with_parameters code u = join_lines L'
        \<and> length L' = length ?L
        \<and> card {i. i < length ?L \<and> L' ! i \<noteq> ?L ! i} \<le> length u
        \<and> (\<forall>i < length ?L. L' ! i \<noteq> ?L ! i \<longrightarrow>
              (\<exists>(nm, v) \<in> set u. \<exists>indent. L' ! i = indent @ nm @ '' = '' @ format_value v))"
    using update_all_changed [of ?L u]
    by (intro exI [of _ "update_all u ?L"]) (simp add: update_code_with_parameters_def)
next
  assume "\<forall>(nm, v) \<in> set u. \<forall>l \<in> set (split_lines code).
            re_match (update_pattern nm) l = None"
  then have "update_all u (split_lines code) = split_lines code"
    by (rule update_all_not_found)
  then show "update_code_with_parameters code u = code"
    by (simp add: update_code_with_parameters_def join_split)
next
  assume a: "plain_name nm \<and> i < length (split_lines code)
      \<and> assigns_to nm (split_lines code ! i)
      \<and> (\<forall>j < i. \<not> assigns_to nm (split_lines code ! j))"
  then have "update_lines nm v (split_lines code)
      = (split_lines code)[i := takeWhile py_isspace (split_lines code ! i) @ nm @ '' = ''
                                  @ format_value v]"
    using update_one_plain [of nm i "split_lines code" v] by blast
  then show "update_code_with_parameters code [(nm, v)]
      = join_lines ((split_lines code)
          [i := takeWhile py_isspace (split_lines code ! i) @ nm @ '' = '' @ format_value v])"
    by (simp only: update_single)
next
  assume "plain_name nm
            \<and> (\<forall>j < length (split_lines code). \<not> assigns_to nm (split_lines code ! j))"
  then have "update_lines nm v (split_lines code) = split_lines code"
    using update_lines_none by blast
  then show "update_code_with_parameters code [(nm, v)] = code"
    by (simp only: update_single join_split)
next
  assume "plain_name nm"
  then show "update_code_with_parameters code ((nm, v) # u)
              = update_code_with_parameters (update_code_with_parameters code [(nm, v)]) u"
    by (rule update_compose)
qed

theorem update_frame_witness:
  "convertible (PyInt 5) \<and> plain_name ''k'' \<and> assigns_to ''k'' ''k = 2''
   \<and> \<not> assigns_to ''k'' ''a = 1''
   \<and> re_match (update_pattern ''z'') ''a = 1'' = None
   \<and> re_match (update_pattern ''z'') ''k = 2'' = None
   \<and> update_code_with_parameters ''a = 1\<newline>k = 2'' [(''z'', PyInt 5)] = ''a = 1\<newline>k = 2''
   \<and> update_code_with_parameters ''a = 1\<newline>k = 2'' [(''k'', PyInt 5)] = ''a = 1\<newline>k = 5''"
proof -
  let ?code = "''a = 1\<newline>k = 2''"
  have a1: "assigns_to ''k'' ''k = 2''" by code_simp
  have a0: "\<not> assigns_to ''k'' ''a = 1''" by code_simp
  have z0: "re_match (update_pattern ''z'') ''a = 1'' = None" by code_simp
  have z1: "re_match (update_pattern ''z'') ''k = 2'' = None" by code_simp
  have cu: "\<forall>(nm, v) \<in> set [(''z'', PyInt 5)]. convertible v"
    by (simp add: convertible_small)
  note th = update_frame [OF cu convertible_small(1), of ?code "''k''" 1]
  have nf: "\<forall>(nm, v) \<in> set [(''z'', PyInt 5)].
              \<forall>l \<in> set (split_lines ?code). re_match (update_pattern nm) l = None"
    unfolding split_a_k using z0 z1 by simp
  have fst: "plain_name ''k'' \<and> 1 < length (split_lines ?code)
             \<and> assigns_to ''k'' (split_lines ?code ! 1)
             \<and> (\<forall>j < 1. \<not> assigns_to ''k'' (split_lines ?code ! j))"
    unfolding split_a_k using plain_name_k a0 a1 by simp
  have j: "join_lines ([''a = 1'', ''k = 2'']
              [1 := takeWhile py_isspace ([''a = 1'', ''k = 2''] ! 1) @ ''k'' @ '' = ''
                      @ format_value (PyInt 5)]) = ''a = 1\<newline>k = 5''"
    by code_simp
  from th nf
  have r1: "update_code_with_parameters ?code [(''z'', PyInt 5)] = ?code" by blast
  from th fst
  have "update_code_with_parameters ?code [(''k'', PyInt 5)]
          = join_lines ((split_lines ?code)
              [1 := takeWhile py_isspace (split_lines ?code ! 1) @ ''k'' @ '' = ''
                      @ format_value (PyInt 5)])" by blast
  then have r2: "update_code_with_parameters ?code [(''k'', PyInt 5)] = ''a = 1\<newline>k = 5''"
    unfolding split_a_k j .
  from convertible_small(1) plain_name_k a1 a0 z0 z1 r1 r2 show ?thesis by (simp only: simp_thms)
qed

text \<open>
  C3, as the claim states it, fails: the pattern of the rewrite takes no sign, so a
  line rewritten with a negative value is not matched again and the second
  application moves on to the next assignment. With \<open>{k: -5}\<close> the script \<open>k = 1\<close>,
  \<open>k = 2\<close> (one statement a line) becomes \<open>k = -5\<close>, \<open>k = 2\<close> and then \<open>k = -5\<close>, \<open>k = -5\<close>.
\<close>

theorem idempotence_counterexample:
  "update_code_with_parameters ''k = 1\<newline>k = 2'' [(''k'', PyInt (- 5))] = ''k = -5\<newline>k = 2''
   \<and> update_code_with_parameters ''k = -5\<newline>k = 2'' [(''k'', PyInt (- 5))]
       = ''k = -5\<newline>k = -5''"
  by code_simp

text \<open>
  C3, amended. For every script and every update mapping whose names have no white
  space and no \<open>=\<close> (and are not empty) and whose values are not negative,
  applying \<open>update_code_with_parameters\<close> twice gives the same text as applying it
  once. For the update of one such name to a negative value, applying it twice gives
  the same text as applying it once exactly when at most one line of the script
  assigns a number to the name (in any case of its letters). Values have at most 640
  digits.
\<close>

theorem update_idempotent:
  "((\<forall>(nm, v) \<in> set u. plain_name nm \<and> 0 \<le> num_val v \<and> convertible v)
      \<longrightarrow> update_code_with_parameters (update_code_with_parameters code u) u
            = update_code_with_parameters code u)
   \<and> (plain_name nm \<and> num_val v < 0 \<and> convertible v
      \<longrightarrow> (update_code_with_parameters (update_code_with_parameters code [(nm, v)]) [(nm, v)]
              = update_code_with_parameters code [(nm, v)]
            \<longleftrightarrow> length (filter (assigns_to nm) (split_lines code)) \<le> 1))"
proof (intro conjI impI)
  assume "\<forall>(nm, v) \<in> set u. plain_name nm \<and> 0 \<le> num_val v \<and> convertible v"
  then have a: "\<forall>(nm, v) \<in> set u. plain_name nm \<and> 0 \<le> num_val v" by auto
  let ?F = "update_all u (split_lines code)"
  have pl: "\<forall>(nm, v) \<in> set u. plain_name nm" using a by auto
  have "\<forall>l \<in> set (split_lines code). CHR 0x0A \<notin> set l"
    using split_lines_no_newline by blast
  from update_all_no_newline [OF pl this] have nn: "\<forall>l \<in> set ?F. CHR 0x0A \<notin> set l" .
  have "length ?F = length (split_lines code)" by simp
  with split_lines_nonempty [of code] have ne: "?F \<noteq> []" by (metis length_0_conv)
  have "split_lines (join_lines ?F) = ?F" using split_join [OF ne nn] .
  then show "update_code_with_parameters (update_code_with_parameters code u) u
            = update_code_with_parameters code u"
    unfolding update_code_with_parameters_def by (simp only: update_all_idem [OF a])
next
  assume "plain_name nm \<and> num_val v < 0 \<and> convertible v"
  then show "update_code_with_parameters (update_code_with_parameters code [(nm, v)]) [(nm, v)]
              = update_code_with_parameters code [(nm, v)]
            \<longleftrightarrow> length (filter (assigns_to nm) (split_lines code)) \<le> 1"
    using update_neg_twice by blast
qed

theorem update_idempotent_witness:
  "plain_name ''k'' \<and> 0 \<le> num_val (PyInt 5) \<and> convertible (PyInt 5)
   \<and> update_code_with_parameters ''k = 1\<newline>k = 2'' [(''k'', PyInt 5)] = ''k = 5\<newline>k = 2''
   \<and> update_code_with_parameters ''k = 5\<newline>k = 2'' [(''k'', PyInt 5)] = ''k = 5\<newline>k = 2''
   \<and> num_val (PyInt (- 5)) < 0 \<and> convertible (PyInt (- 5))
   \<and> length (filter (assigns_to ''k'') (split_lines ''k = 1'')) = 1
   \<and> update_code_with_parameters ''k = 1'' [(''k'', PyInt (- 5))] = ''k = -5''
   \<and> update_code_with_parameters ''k = -5'' [(''k'', PyInt (- 5))] = ''k = -5''"
proof -
  have h: "\<forall>(nm, v) \<in> set [(''k'', PyInt 5)]. plain_name nm \<and> 0 \<le> num_val v \<and> convertible v"
    by (simp add: plain_name_k convertible_small)
  from update_idempotent [of "[(''k'', PyInt 5)]" "''k = 1\<newline>k = 2''"] h
  have "update_code_with_parameters
          (update_code_with_parameters ''k = 1\<newline>k = 2'' [(''k'', PyInt 5)]) [(''k'', PyInt 5)]
        = update_code_with_parameters ''k = 1\<newline>k = 2'' [(''k'', PyInt 5)]"
    by blast
  then have 1: "update_code_with_parameters ''k = 5\<newline>k = 2'' [(''k'', PyInt 5)]
                  = ''k = 5\<newline>k = 2''"
    unfolding update_k_twice .
  have f: "length (filter (assigns_to ''k'') (split_lines ''k = 1'')) = 1" by code_simp
  have n: "num_val (PyInt (- 5)) < 0" by simp
  from update_idempotent [of "[]" "''k = 1''" "''k''" "PyInt (- 5)"] plain_name_k n
    convertible_small(2) f
  have "update_code_with_parameters
          (update_code_with_parameters ''k = 1'' [(''k'', PyInt (- 5))]) [(''k'', PyInt (- 5))]
        = update_code_with_parameters ''k = 1'' [(''k'', PyInt (- 5))]"
    by simp
  then have 2: "update_code_with_parameters ''k = -5'' [(''k'', PyInt (- 5))] = ''k = -5''"
    unfolding update_k_neg .
  have p: "0 \<le> num_val (PyInt 5)" by simp
  from plain_name_k p convertible_small(1,2) update_k_twice 1 n f update_k_neg 2
  show ?thesis by (simp only: simp_thms)
qed

section \<open>Properties of the execution engine\<close>



lemma exec_namespace_sample:
  "exec_namespace sample_env d = Returns [(Str ''__builtins__'', PyObj ''builtins''), (Str ''df'', d)]"
  by (simp add: exec_namespace_def sample_env_def preloaded_def isinstance_def
      ModuleNotFoundError_lib_def)

lemma run_script_sample: "run_script sample_env = sample_runs"
  by (simp add: sample_env_def)

lemmas sample_scripts =
  raise_ValueError_def raise_SyntaxError_def close_stdout_def read_timeout_def
  store_int_key_def dq_def sq_def

lemmas execute_sample =
  execute_code_def exec_namespace_sample run_script_sample sample_runs_def sample_scripts
  quiet_def try_block_def with_body_def handlers_def handler_text_def isinstance_def
  exception_classes_def



lemma sample_ValueError_run:
  "run_script sample_env raise_ValueError ns fr = Some (quiet (Raised Executing (ValueError_x user_frame)))"
  by (simp add: run_script_sample sample_runs_def sample_scripts)










text \<open>
  C9, as the claim states it, fails: the budget is a local of \<open>execute_code\<close>, and a
  script reads the locals of its caller. The script
  \<open>import sys; result = sys._getframe(1).f_locals['timeout']\<close> (one statement a line)
  makes \<open>execute_code\<close> return the result 30 under the budget 30 and 60 under 60.
\<close>

theorem timeout_counterexample:
  "execute_code sample_env read_timeout PyNone 30 None
     = Returns \<lparr>success = True, output_text = [], error = None,
                result = Some (PyNum (PyInt 30)),
                variables = [(Str ''sys'', PyObj ''sys''), (Str ''result'', PyNum (PyInt 30))]\<rparr>
   \<and> execute_code sample_env read_timeout PyNone 60 None
     = Returns \<lparr>success = True, output_text = [], error = None,
                result = Some (PyNum (PyInt 60)),
                variables = [(Str ''sys'', PyObj ''sys''), (Str ''result'', PyNum (PyInt 60))]\<rparr>"
  by (simp add: execute_sample startswith_def builtin_names_def)

text \<open>
  C9, amended. \<open>execute_code\<close> makes no use of the budget: the budget reaches the
  script only as a local of the caller's frame. For every script, dataset and two
  budgets, when the run of the script from the starting namespace is the same under
  the two budgets (as it is for a script that does not inspect the frame of its
  caller), \<open>execute_code\<close> gives the same outcome under both.
\<close>

theorem timeout_only_through_frame:
  assumes "\<forall>ns. exec_namespace env data = Returns ns \<longrightarrow>
             run_script env code ns
               \<lparr>f_data = data, f_timeout = t1, f_allowed_modules = allowed_modules\<rparr>
             = run_script env code ns
                 \<lparr>f_data = data, f_timeout = t2, f_allowed_modules = allowed_modules\<rparr>"
  shows "execute_code env code data t1 allowed_modules
           = execute_code env code data t2 allowed_modules"
  using assms by (cases "exec_namespace env data") (simp_all add: execute_code_def)

theorem timeout_only_through_frame_witness:
  "run_script sample_env raise_ValueError
       [(Str ''__builtins__'', PyObj ''builtins''), (Str ''df'', PyNone)]
       \<lparr>f_data = PyNone, f_timeout = 30, f_allowed_modules = None\<rparr>
     = run_script sample_env raise_ValueError
         [(Str ''__builtins__'', PyObj ''builtins''), (Str ''df'', PyNone)]
         \<lparr>f_data = PyNone, f_timeout = 60, f_allowed_modules = None\<rparr>
   \<and> execute_code sample_env raise_ValueError PyNone 30 None
     = execute_code sample_env raise_ValueError PyNone 60 None"
proof -
  have "\<forall>ns. exec_namespace sample_env PyNone = Returns ns \<longrightarrow>
             run_script sample_env raise_ValueError ns
               \<lparr>f_data = PyNone, f_timeout = 30, f_allowed_modules = None\<rparr>
             = run_script sample_env raise_ValueError ns
                 \<lparr>f_data = PyNone, f_timeout = 60, f_allowed_modules = None\<rparr>"
    by (simp add: sample_ValueError_run)
  from timeout_only_through_frame [OF this] show ?thesis
    by (simp add: sample_ValueError_run)
qed

text \<open>
  C10. The claim is that a result dictionary with \<open>success\<close> = false has \<open>result\<close> =
  \<open>None\<close> and empty \<open>variables\<close>, whatever the script bound before failing, and the
  printed text in \<open>output\<close>. The locals \<open>result\<close> and \<open>variables\<close> are preset to these
  values before the \<open>try\<close> block, and a failure of \<open>compile\<close> or \<open>exec\<close> leaves them so.
  But \<open>result\<close> is assigned inside the \<open>try\<close> block, before the variables are collected,
  and the collection calls \<open>k.startswith\<close> on every key: the script
  \<open>print(1); result = 5; globals()[1] = 2\<close> (one statement a line) completes, the
  collection raises on the key \<open>1\<close>, and \<open>execute_code\<close> returns \<open>success\<close> = false with
  \<open>result\<close> = 5.
\<close>

theorem failed_run_keeps_result:
  "execute_code sample_env store_int_key PyNone 30 None
     = Returns \<lparr>success = False, output_text = ''1\<newline>'',
                error = Some (''Error: '' @ no_startswith @ ''\<newline>''
                              @ traceback_text [] (''AttributeError: '' @ no_startswith)),
                result = Some (PyNum (PyInt 5)), variables = []\<rparr>"
  by (simp add: execute_sample int_key_def AttributeError_int_def)

end
